theory Spec2Isabelle
  imports Main "HOL-Library.Multiset"
begin

text \<open>
  A shallow embedding of \<^verbatim>\<open>src/index.js\<close>, the extension of Marked that expands an image
  reference whose filename lists size variants (\<^verbatim>\<open>photo__400-300_800-600.jpg\<close>) into an
  \<^verbatim>\<open>img\<close> tag with \<^verbatim>\<open>srcset\<close>. The string methods, \<^verbatim>\<open>parseInt\<close>, the regular expression and
  the methods of the class are functions of the same names; \<^verbatim>\<open>undefined\<close> and \<^verbatim>\<open>null\<close> are
  \<open>None\<close>, a thrown error is a value, and the lines written to the console are returned
  with the result.
\<close>

section \<open>Strings\<close>

text \<open>
  A JavaScript string is modelled as a \<^typ>\<open>string\<close>: one \<^typ>\<open>char\<close> per code unit,
  for code units below 256. The pathname, search and hash that the platform's URL
  object serialises are percent-encoded ASCII, so the strings the pattern is matched
  against are within this range.
\<close>

text \<open>\<^verbatim>\<open>s.startsWith(p)\<close>\<close>

definition startsWith :: "string \<Rightarrow> string \<Rightarrow> bool" where
  "startsWith s p = (take (length p) s = p)"

text \<open>\<^verbatim>\<open>s.indexOf(p)\<close>, with \<open>None\<close> for -1.\<close>

fun indexOf :: "string \<Rightarrow> string \<Rightarrow> nat option" where
  "indexOf [] p = (if p = [] then Some 0 else None)"
| "indexOf (c # r) p =
     (if startsWith (c # r) p then Some 0 else map_option Suc (indexOf r p))"

text \<open>\<^verbatim>\<open>s.includes(p)\<close>\<close>

definition includes_str :: "string \<Rightarrow> string \<Rightarrow> bool" where
  "includes_str s p = (indexOf s p \<noteq> None)"

text \<open>\<^verbatim>\<open>s.split(sep)\<close> for a separator of one character: never an empty array.\<close>

fun split :: "string \<Rightarrow> char \<Rightarrow> string list" where
  "split [] sep = [[]]"
| "split (c # r) sep =
     (if c = sep then [] # split r sep
      else (case split r sep of [] \<Rightarrow> [[c]] | x # xs \<Rightarrow> (c # x) # xs))"

text \<open>\<^verbatim>\<open>xs.join(sep)\<close>\<close>

fun join :: "string list \<Rightarrow> string \<Rightarrow> string" where
  "join [] sep = []"
| "join [x] sep = x"
| "join (x # y # r) sep = x @ sep @ join (y # r) sep"

text \<open>\<^verbatim>\<open>xs.pop()\<close> and \<^verbatim>\<open>xs[xs.length - 1]\<close>: \<open>None\<close> is \<^verbatim>\<open>undefined\<close>.\<close>

definition pop :: "'a list \<Rightarrow> 'a option" where
  "pop xs = (if xs = [] then None else Some (last xs))"

text \<open>\<^verbatim>\<open>xs[i]\<close>: \<open>None\<close> is \<^verbatim>\<open>undefined\<close>.\<close>

definition at_index :: "'a list \<Rightarrow> nat \<Rightarrow> 'a option" where
  "at_index xs i = (if i < length xs then Some (xs ! i) else None)"

text \<open>
  \<^verbatim>\<open>s.replace(pattern, replacement)\<close> with a string pattern: the first occurrence is
  replaced, and the replacement text is expanded (GetSubstitution). With a string
  pattern there are no captures, so only \<^verbatim>\<open>$$\<close>, \<^verbatim>\<open>$&\<close>, \<^verbatim>\<open>$`\<close> and \<^verbatim>\<open>$'\<close> are special;
  every other \<^verbatim>\<open>$\<close> stands for itself.
\<close>

fun getSubstitution :: "string \<Rightarrow> string \<Rightarrow> string \<Rightarrow> string \<Rightarrow> string" where
  "getSubstitution matched pre post [] = []"
| "getSubstitution matched pre post [c] = [c]"
| "getSubstitution matched pre post (c # d # r) =
     (if c = CHR ''$'' \<and> d = CHR ''$'' then CHR ''$'' # getSubstitution matched pre post r
      else if c = CHR ''$'' \<and> d = CHR ''&'' then matched @ getSubstitution matched pre post r
      else if c = CHR ''$'' \<and> d = CHR 0x60 then pre @ getSubstitution matched pre post r
      else if c = CHR ''$'' \<and> d = CHR 0x27 then post @ getSubstitution matched pre post r
      else c # getSubstitution matched pre post (d # r))"

definition replace :: "string \<Rightarrow> string \<Rightarrow> string \<Rightarrow> string" where
  "replace s pattern replacement =
     (case indexOf s pattern of
        None \<Rightarrow> s
      | Some pos \<Rightarrow>
          (let pre = take pos s;
               post = drop (pos + length pattern) s
           in pre @ getSubstitution pattern pre post replacement @ post))"

section \<open>Numbers\<close>

text \<open>
  The Numbers of the program are what \<^verbatim>\<open>parseInt\<close> returns and the differences of two
  widths: \<open>NaN\<close>, the two infinities, and doubles whose value is an integer. \<open>Num n\<close>
  is the double of value \<open>n\<close>; the functions below only build it for an \<open>n\<close> that a
  double can hold. Every integer up to \<open>2^53\<close> is one; above, \<^verbatim>\<open>parseInt\<close> rounds to the
  nearest double.
\<close>

datatype number = NaN | Num int | Infinity | NegInfinity

definition MAX_SAFE_INTEGER :: nat where
  "MAX_SAFE_INTEGER = 9007199254740991"

fun negate :: "number \<Rightarrow> number" where
  "negate NaN = NaN"
| "negate (Num n) = Num (- n)"
| "negate Infinity = NegInfinity"
| "negate NegInfinity = Infinity"

text \<open>The number of binary digits of a positive integer.\<close>

function bit_length :: "int \<Rightarrow> nat" where
  "bit_length n = (if n \<le> 0 then 0 else Suc (bit_length (n div 2)))"
  by pat_completeness auto
termination
  by (relation "measure nat") auto

declare bit_length.simps [simp del]

text \<open>
  The double nearest to a non-negative integer: the integer keeps its 53 leading bits,
  rounded to nearest with ties to the even neighbour, and a result of \<open>2^1024\<close> or more
  is \<open>Infinity\<close>.
\<close>

definition to_double :: "int \<Rightarrow> number" where
  "to_double n =
     (let e = bit_length n - 53;
          p = 2 ^ e;
          q = n div p;
          r = n mod p;
          m = (if 2 * r < p then q else if p < 2 * r then q + 1
               else if even q then q else q + 1);
          v = m * p
      in if 1024 < bit_length v then Infinity else Num v)"

text \<open>The double nearest to an integer of either sign.\<close>

definition nearest_double :: "int \<Rightarrow> number" where
  "nearest_double i = (if i < 0 then negate (to_double (- i)) else to_double i)"

definition is_digit :: "char \<Rightarrow> bool" where
  "is_digit c = (48 \<le> (of_char c :: nat) \<and> (of_char c :: nat) \<le> 57)"

definition is_alnum :: "char \<Rightarrow> bool" where
  "is_alnum c = (is_digit c
     \<or> (97 \<le> (of_char c :: nat) \<and> (of_char c :: nat) \<le> 122)
     \<or> (65 \<le> (of_char c :: nat) \<and> (of_char c :: nat) \<le> 90))"

text \<open>Line terminators (LF, CR) and white space (TAB, VT, FF, SP, NBSP) below 256.\<close>

definition is_line_terminator :: "char \<Rightarrow> bool" where
  "is_line_terminator c = ((of_char c :: nat) = 10 \<or> (of_char c :: nat) = 13)"

definition is_white_space :: "char \<Rightarrow> bool" where
  "is_white_space c = (is_line_terminator c \<or> (of_char c :: nat) \<in> {9, 11, 12, 32, 160})"

definition digit_value :: "char \<Rightarrow> int" where
  "digit_value c = of_char c - 48"

definition digits_value :: "string \<Rightarrow> int" where
  "digits_value ds = foldl (\<lambda>a c. 10 * a + digit_value c) 0 ds"

text \<open>
  \<^verbatim>\<open>parseInt(s, 10)\<close>: leading white space is skipped, a sign is read, then the longest
  run of decimal digits; no digit gives NaN, and the integer read is rounded to a double.
  (ECMAScript lets an implementation replace the digits after the 20th by zeros before it
  rounds; V8 rounds the integer as it is written, and so does this function.)
\<close>

definition parseInt10 :: "string \<Rightarrow> number" where
  "parseInt10 s =
     (let t = dropWhile is_white_space s;
          negative = (t \<noteq> [] \<and> hd t = CHR ''-'');
          u = (if t \<noteq> [] \<and> (hd t = CHR ''-'' \<or> hd t = CHR ''+'') then tl t else t);
          z = takeWhile is_digit u
      in if z = [] then NaN
         else nearest_double ((if negative then - 1 else 1) * digits_value z))"

text \<open>\<^verbatim>\<open>parseInt(x, 10)\<close> where \<^verbatim>\<open>x\<close> may be \<^verbatim>\<open>undefined\<close>, which is read as the string "undefined".\<close>

definition parseInt10_of :: "string option \<Rightarrow> number" where
  "parseInt10_of x = parseInt10 (case x of None \<Rightarrow> ''undefined'' | Some s \<Rightarrow> s)"

text \<open>The decimal digits of a non-negative integer.\<close>

function int_to_string :: "int \<Rightarrow> string" where
  "int_to_string n =
     (if n < 10 then [char_of (48 + n)]
      else int_to_string (n div 10) @ [char_of (48 + n mod 10)])"
  by pat_completeness auto
termination
  by (relation "measure nat") auto

declare int_to_string.simps [simp del]

text \<open>
  Number-to-string picks the shortest run of digits \<open>s\<close> and the exponent \<open>m\<close> such that
  \<open>s * 10^m\<close> rounds to the double, and among several the nearest (then the even) one.
  \<open>shortest_digits x m\<close> looks for it from the exponent \<open>m\<close> downwards, among the two
  multiples of the power of ten around \<open>x\<close>, and returns the integer \<open>s * 10^m\<close>.
\<close>

fun shortest_digits :: "int \<Rightarrow> nat \<Rightarrow> int" where
  "shortest_digits x 0 = x"
| "shortest_digits x (Suc m) =
     (let p = 10 ^ Suc m;
          lo = (x div p) * p;
          hi = lo + p;
          lo_ok = (0 < lo \<and> to_double lo = Num x);
          hi_ok = (to_double hi = Num x)
      in if lo_ok \<and> hi_ok then
           (if x - lo < hi - x then lo else if hi - x < x - lo then hi
            else if even (lo div p) then lo else hi)
         else if lo_ok then lo
         else if hi_ok then hi
         else shortest_digits x m)"

text \<open>
  A non-negative double of integer value in a template literal. Below \<open>2^53\<close> every
  digit is needed, so the shortest digits are the decimal digits of the value. With up to
  21 digits the integer found is printed with its zeros; a longer one is printed with an
  exponent, as in \<^verbatim>\<open>1e+21\<close> and \<^verbatim>\<open>1.5e+22\<close>.
\<close>

definition double_to_string :: "int \<Rightarrow> string" where
  "double_to_string x =
     (if x < 9007199254740992 then int_to_string x
      else (let s = int_to_string (shortest_digits x (length (int_to_string x)));
                n = length s
            in if n \<le> 21 then s
               else (let d = rev (dropWhile (\<lambda>c. c = CHR ''0'') (rev s))
                     in hd d # (if tl d = [] then [] else CHR ''.'' # tl d)
                        @ ''e+'' @ int_to_string (int (n - 1)))))"

text \<open>A Number in a template literal.\<close>

fun number_to_string :: "number \<Rightarrow> string" where
  "number_to_string NaN = ''NaN''"
| "number_to_string Infinity = ''Infinity''"
| "number_to_string NegInfinity = ''-Infinity''"
| "number_to_string (Num n) =
     (if n < 0 then CHR ''-'' # double_to_string (- n) else double_to_string n)"

text \<open>\<^verbatim>\<open>a - b\<close> on these Numbers: the difference of two doubles is rounded to a double.\<close>

fun subtract :: "number \<Rightarrow> number \<Rightarrow> number" where
  "subtract (Num a) (Num b) = nearest_double (a - b)"
| "subtract NaN y = NaN"
| "subtract x NaN = NaN"
| "subtract Infinity Infinity = NaN"
| "subtract NegInfinity NegInfinity = NaN"
| "subtract Infinity y = Infinity"
| "subtract NegInfinity y = NegInfinity"
| "subtract (Num a) Infinity = NegInfinity"
| "subtract (Num a) NegInfinity = Infinity"

text \<open>\<^verbatim>\<open>v > 0\<close>, which is false of NaN.\<close>

fun positive :: "number \<Rightarrow> bool" where
  "positive (Num n) = (0 < n)"
| "positive Infinity = True"
| "positive x = False"


text \<open>The canonical form of a run of digits: without its leading zeros, and \<open>0\<close> when nothing is left.\<close>

definition canonical :: "string \<Rightarrow> string" where
  "canonical ds = (case dropWhile (\<lambda>c. c = CHR ''0'') ds of [] \<Rightarrow> ''0'' | r \<Rightarrow> r)"

section \<open>The pattern\<close>

text \<open>
  The regular expression of the constructor,
  \<^verbatim>\<open>/^(.*)__((?:\d+-\d+(?:-[a-z0-9]+)?)(?:_(?:\d+-\d+(?:-[a-z0-9]+)?))*)(\.[^.]+)$/i\<close>,
  as a backtracking matcher: a matcher maps the input to the inputs left over after each
  way of matching a prefix, in the order in which the backtracking engine tries them
  (greedy: longer repetitions first). The match is the first way that reaches the end.
\<close>

type_synonym matcher = "string \<Rightarrow> string list"

definition re_class :: "(char \<Rightarrow> bool) \<Rightarrow> matcher" where
  "re_class P s = (case s of [] \<Rightarrow> [] | c # r \<Rightarrow> if P c then [r] else [])"

definition re_char :: "char \<Rightarrow> matcher" where
  "re_char c = re_class (\<lambda>x. x = c)"

definition re_seq :: "matcher \<Rightarrow> matcher \<Rightarrow> matcher" where
  "re_seq m1 m2 s = concat (map m2 (m1 s))"

definition re_opt :: "matcher \<Rightarrow> matcher" where
  "re_opt m s = m s @ [s]"

text \<open>
  Greedy repetition. An iteration that consumes nothing is not repeated; each iteration
  consumes at least one character, so the length of the input bounds their number.
\<close>

fun re_star_n :: "nat \<Rightarrow> matcher \<Rightarrow> matcher" where
  "re_star_n 0 m s = [s]"
| "re_star_n (Suc n) m s =
     concat (map (re_star_n n m) (filter (\<lambda>r. length r < length s) (m s))) @ [s]"

definition re_star :: "matcher \<Rightarrow> matcher" where
  "re_star m s = re_star_n (length s) m s"

definition re_plus :: "matcher \<Rightarrow> matcher" where
  "re_plus m = re_seq m (re_star m)"

text \<open>\<^verbatim>\<open>\d+-\d+(?:-[a-z0-9]+)?\<close> (with the flag \<^verbatim>\<open>i\<close>, \<^verbatim>\<open>[a-z0-9]\<close> also takes A to Z)\<close>

definition re_size :: matcher where
  "re_size =
     re_seq (re_plus (re_class is_digit))
       (re_seq (re_char CHR ''-'')
          (re_seq (re_plus (re_class is_digit))
             (re_opt (re_seq (re_char CHR ''-'') (re_plus (re_class is_alnum))))))"

text \<open>\<^verbatim>\<open>(?:size)(?:_(?:size))*\<close>\<close>

definition re_sizes :: matcher where
  "re_sizes = re_seq re_size (re_star (re_seq (re_char CHR ''_'') re_size))"

text \<open>\<^verbatim>\<open>\.[^.]+\<close>\<close>

definition re_ext :: matcher where
  "re_ext = re_seq (re_char CHR ''.'') (re_plus (re_class (\<lambda>c. c \<noteq> CHR ''.'')))"

text \<open>\<^verbatim>\<open>.*\<close> (the dot takes no line terminator)\<close>

definition re_base :: matcher where
  "re_base = re_star (re_class (\<lambda>c. \<not> is_line_terminator c))"

text \<open>
  All ways of matching the whole pattern, with the three captures of each: the text a
  group consumed is the input it started on without the input it left.
\<close>

definition regex_matches :: "string \<Rightarrow> (string \<times> string \<times> string) list" where
  "regex_matches s =
     concat (map (\<lambda>r1.
       concat (map (\<lambda>r2.
         concat (map (\<lambda>r3.
           concat (map (\<lambda>r4.
             if r4 = [] then
               [(take (length s - length r1) s,
                 take (length r2 - length r3) r2,
                 take (length r3 - length r4) r3)]
             else [])
           (re_ext r3)))
         (re_sizes r2)))
       (re_seq (re_char CHR ''_'') (re_char CHR ''_'') r1)))
     (re_base s))"

text \<open>\<^verbatim>\<open>filename.match(this.#regex)\<close>: \<open>None\<close> is \<^verbatim>\<open>null\<close>.\<close>

definition regex_match :: "string \<Rightarrow> (string \<times> string \<times> string) option" where
  "regex_match s = (case regex_matches s of [] \<Rightarrow> None | m # _ \<Rightarrow> Some m)"

section \<open>The extension\<close>

subsection \<open>Data\<close>

text \<open>The options object of the constructor; \<open>None\<close> is a property that is not given.\<close>

record options =
  opt_sizes :: "string option"
  opt_debug :: "bool option"
  opt_lazy :: "bool option"

text \<open>The private fields \<^verbatim>\<open>#defaultSizes\<close> (\<open>None\<close> is \<^verbatim>\<open>null\<close>), \<^verbatim>\<open>#debug\<close> and \<^verbatim>\<open>#lazy\<close>.\<close>

record config =
  defaultSizes :: "string option"
  debug :: bool
  lazy :: bool

text \<open>The image token of the host: \<^verbatim>\<open>href\<close>, \<^verbatim>\<open>title\<close> (\<open>None\<close> is \<^verbatim>\<open>null\<close>) and \<^verbatim>\<open>text\<close>.\<close>

record token =
  href :: string
  title :: "string option"
  text' :: "string option"

text \<open>
  The properties read from the platform's URL object, and the constructor
  \<^verbatim>\<open>new URL(href)\<close> / \<^verbatim>\<open>new URL(href, base)\<close> itself: it is not code of this program, so
  it is a parameter of the model; \<open>None\<close> is the TypeError it throws.
\<close>

record url =
  origin :: string
  pathname :: string
  search :: string
  hash :: string

type_synonym url_constructor = "string \<Rightarrow> string option \<Rightarrow> url option"

record parsedUrl = url +
  isAbsolute :: bool

record variant =
  width :: number
  height :: number
  ext :: string
  token :: string

datatype js_error = TypeError

text \<open>What \<^verbatim>\<open>#render\<close> does: return a string, return \<^verbatim>\<open>false\<close>, or throw.\<close>

datatype result = Markup string | NoMatch | Uncaught js_error

text \<open>A line written to the console.\<close>

datatype diagnostic = Warning string | Error string js_error

subsection \<open>Operations\<close>

text \<open>\<^verbatim>\<open>a || b\<close> on a value that may be absent: \<^verbatim>\<open>undefined\<close>, \<^verbatim>\<open>false\<close> and the empty string are falsy.\<close>

definition bool_or :: "bool option \<Rightarrow> bool \<Rightarrow> bool" where
  "bool_or a b = (case a of Some True \<Rightarrow> True | _ \<Rightarrow> b)"

definition truthy :: "string option \<Rightarrow> bool" where
  "truthy a = (case a of None \<Rightarrow> False | Some s \<Rightarrow> s \<noteq> [])"

definition constructor :: "options \<Rightarrow> config" where
  "constructor opts =
     \<lparr> defaultSizes = (if truthy (opt_sizes opts) then opt_sizes opts else None),
       debug = bool_or (opt_debug opts) False,
       lazy = bool_or (opt_lazy opts) True \<rparr>"

definition warn :: "config \<Rightarrow> string \<Rightarrow> diagnostic list" where
  "warn cfg message =
     (if debug cfg then [Warning (''[Marked Responsive Images] '' @ message)] else [])"

definition error :: "config \<Rightarrow> string \<Rightarrow> js_error \<Rightarrow> diagnostic list" where
  "error cfg message context =
     (if debug cfg then [Error (''[Marked Responsive Images] '' @ message) context] else [])"

definition parseUrl :: "url_constructor \<Rightarrow> string \<Rightarrow> parsedUrl option" where
  "parseUrl URL h =
     (case URL h None of
        Some urlObj \<Rightarrow>
          Some \<lparr> origin = origin urlObj, pathname = pathname urlObj,
                 search = search urlObj, hash = hash urlObj, isAbsolute = True \<rparr>
      | None \<Rightarrow>
          (case URL h (Some ''http://u'') of
             Some urlObj \<Rightarrow>
               Some \<lparr> origin = [], pathname = pathname urlObj,
                      search = search urlObj, hash = hash urlObj, isAbsolute = False \<rparr>
           | None \<Rightarrow> None))"

text \<open>The function mapped over the size tokens in \<^verbatim>\<open>#processVariants\<close>.\<close>

definition decodeToken :: "string \<Rightarrow> string \<Rightarrow> variant" where
  "decodeToken originalExtention tok =
     (let parts = split tok CHR ''-'';
          w = parseInt10_of (at_index parts 0);
          h = parseInt10_of (at_index parts 1);
          e = (if truthy (at_index parts 2)
               then CHR ''.'' # the (at_index parts 2) else originalExtention)
      in \<lparr> width = w, height = h, ext = e,
           token = number_to_string w @ ''-'' @ number_to_string h \<rparr>)"

text \<open>
  The comparator \<^verbatim>\<open>(a, b) => a.width - b.width\<close>.
\<close>

definition compareWidth :: "variant \<Rightarrow> variant \<Rightarrow> number" where
  "compareWidth a b = subtract (width a) (width b)"

text \<open>
  \<^verbatim>\<open>Array.prototype.sort\<close> is stable and reads a comparator result of NaN as 0: an
  element stays before a later one unless the comparator is positive on them. With a
  comparator that orders the elements consistently its result is the one of insertion
  from the right.
\<close>

fun insert_sorted :: "('a \<Rightarrow> 'a \<Rightarrow> number) \<Rightarrow> 'a \<Rightarrow> 'a list \<Rightarrow> 'a list" where
  "insert_sorted cmp x [] = [x]"
| "insert_sorted cmp x (y # ys) =
     (if positive (cmp x y) then y # insert_sorted cmp x ys else x # y # ys)"

definition sort_with :: "('a \<Rightarrow> 'a \<Rightarrow> number) \<Rightarrow> 'a list \<Rightarrow> 'a list" where
  "sort_with cmp xs = foldr (insert_sorted cmp) xs []"

definition processVariants :: "string \<Rightarrow> string \<Rightarrow> variant list" where
  "processVariants sizesPart originalExtention =
     sort_with compareWidth (map (decodeToken originalExtention) (split sizesPart CHR ''_''))"

text \<open>The function mapped over the variants in \<^verbatim>\<open>#generateSrcset\<close>, in its three steps.\<close>

definition variantFilename :: "string \<Rightarrow> variant \<Rightarrow> string" where
  "variantFilename base v = base @ ''__'' @ token v @ ext v"

definition finalUrl ::
  "string \<Rightarrow> string \<Rightarrow> string \<Rightarrow> bool \<Rightarrow> string \<Rightarrow> string \<Rightarrow> string \<Rightarrow> string \<Rightarrow> variant \<Rightarrow> string"
where
  "finalUrl filename base pathname' isAbsolute' origin' search' hash' originalHref v =
     (let variantPathname = replace pathname' filename (variantFilename base v)
      in if isAbsolute' then origin' @ variantPathname @ search' @ hash'
         else (let hadLeadingSlash = startsWith originalHref ''/'';
                   cleanPath = (if startsWith variantPathname ''/'' \<and> \<not> hadLeadingSlash
                                then drop 1 variantPathname else variantPathname)
               in cleanPath @ search' @ hash'))"

definition srcsetEntry ::
  "string \<Rightarrow> string \<Rightarrow> string \<Rightarrow> bool \<Rightarrow> string \<Rightarrow> string \<Rightarrow> string \<Rightarrow> string \<Rightarrow> variant \<Rightarrow> string"
where
  "srcsetEntry filename base pathname' isAbsolute' origin' search' hash' originalHref v =
     finalUrl filename base pathname' isAbsolute' origin' search' hash' originalHref v
       @ '' '' @ number_to_string (width v) @ ''w''"

text \<open>\<^verbatim>\<open>pathname.split('/').pop()\<close>, used as a pattern string (\<^verbatim>\<open>undefined\<close> reads "undefined").\<close>

definition lastSegment :: "string \<Rightarrow> string" where
  "lastSegment pathname' =
     (case pop (split pathname' CHR ''/'') of None \<Rightarrow> ''undefined'' | Some f \<Rightarrow> f)"

definition generateSrcset ::
  "variant list \<Rightarrow> string \<Rightarrow> string \<Rightarrow> bool \<Rightarrow> string \<Rightarrow> string \<Rightarrow> string \<Rightarrow> string \<Rightarrow> string"
where
  "generateSrcset variants base pathname' isAbsolute' origin' search' hash' originalHref =
     (let filename = lastSegment pathname'
      in join (map (srcsetEntry filename base pathname' isAbsolute' origin' search' hash' originalHref)
                 variants) '', '')"

text \<open>The string built by the template literal at the end of the try block.\<close>

definition imgTag ::
  "string \<Rightarrow> string \<Rightarrow> string \<Rightarrow> variant \<Rightarrow> string \<Rightarrow> string \<Rightarrow> string \<Rightarrow> string"
where
  \<open>imgTag h srcset sizesAttr largest alt titleAttr lazyLoadingAttr =
     ''<img class="md-img" src="'' @ h @ ''" srcset="'' @ srcset @ ''"'' @ sizesAttr
       @ '' width="'' @ number_to_string (width largest)
       @ ''" height="'' @ number_to_string (height largest)
       @ ''" alt="'' @ alt @ ''"'' @ titleAttr @ lazyLoadingAttr @ ''>''\<close>

text \<open>The three optional attributes and the alternative text, as the try block computes them.\<close>

definition sizesAttr :: "config \<Rightarrow> string" where
  \<open>sizesAttr cfg =
     (if truthy (defaultSizes cfg) then '' sizes="'' @ the (defaultSizes cfg) @ ''"'' else [])\<close>

definition titleAttr :: "token \<Rightarrow> string" where
  \<open>titleAttr tk = (if truthy (title tk) then '' title="'' @ the (title tk) @ ''"'' else [])\<close>

definition lazyLoadingAttr :: "config \<Rightarrow> string" where
  \<open>lazyLoadingAttr cfg = (if lazy cfg then '' loading="lazy"'' else [])\<close>

definition altText :: "token \<Rightarrow> string" where
  "altText tk = (if truthy (text' tk) then the (text' tk) else [])"

text \<open>
  The try block of \<^verbatim>\<open>#render\<close>. Reading \<^verbatim>\<open>largest.width\<close> throws a TypeError when the
  variant array is empty (\<^verbatim>\<open>largest\<close> is then \<^verbatim>\<open>undefined\<close>).
\<close>

definition renderMatch ::
  "config \<Rightarrow> token \<Rightarrow> parsedUrl \<Rightarrow> string \<Rightarrow> string \<Rightarrow> string \<Rightarrow> js_error + string"
where
  "renderMatch cfg tk parsed base sizesPart originalExtention =
     (let variants = processVariants sizesPart originalExtention;
          srcset = generateSrcset variants base (pathname parsed) (isAbsolute parsed)
                     (origin parsed) (search parsed) (hash parsed) (href tk)
      in case pop variants of
           None \<Rightarrow> Inl TypeError
         | Some largest \<Rightarrow>
             Inr (imgTag (href tk) srcset (sizesAttr cfg) largest (altText tk)
                    (titleAttr tk) (lazyLoadingAttr cfg)))"

text \<open>
  \<^verbatim>\<open>#render\<close>, with the lines it writes to the console. Calling \<^verbatim>\<open>match\<close> on
  \<^verbatim>\<open>undefined\<close> would throw outside the try block.
\<close>

definition render :: "url_constructor \<Rightarrow> config \<Rightarrow> token \<Rightarrow> diagnostic list \<times> result" where
  "render URL cfg tk =
     (case parseUrl URL (href tk) of
        None \<Rightarrow> (warn cfg (''Could not parse URL: '' @ href tk), NoMatch)
      | Some parsed \<Rightarrow>
          (case pop (split (pathname parsed) CHR ''/'') of
             None \<Rightarrow> ([], Uncaught TypeError)
           | Some filename \<Rightarrow>
               (case regex_match filename of
                  None \<Rightarrow>
                    (if includes_str filename ''__''
                     then warn cfg (''Filename contains '' @ [CHR 0x27] @ ''__'' @ [CHR 0x27]
                            @ '' but does not match expected pattern: '' @ filename)
                     else [],
                     NoMatch)
                | Some (base, sizesPart, originalExtention) \<Rightarrow>
                    (case renderMatch cfg tk parsed base sizesPart originalExtention of
                       Inl e \<Rightarrow> (error cfg (''Error generating HTML for '' @ filename) e, NoMatch)
                     | Inr html \<Rightarrow> ([], Markup html)))))"

text \<open>The image renderer of \<^verbatim>\<open>responsiveImages(options)\<close>.\<close>

definition responsiveImages :: "url_constructor \<Rightarrow> options \<Rightarrow> token \<Rightarrow> diagnostic list \<times> result" where
  "responsiveImages URL opts = render URL (constructor opts)"

subsection \<open>The URL constructor on the references of the examples\<close>

text \<open>
  What the platform's URL constructor (URL Standard) answers on the references that the
  examples below use. A reference without a scheme does not parse alone; against the base
  \<^verbatim>\<open>http://u\<close> its path is resolved below the root, and a leading \<^verbatim>\<open>./\<close> is dropped (so
  \<^verbatim>\<open>.//a__1-2.jpg\<close> has the path \<^verbatim>\<open>//a__1-2.jpg\<close>). \<^verbatim>\<open>http://\<close> has no host and parses in
  neither way. The table is only read at these references.
\<close>

definition example_URL :: url_constructor where
  "example_URL h base =
     (if h = ''https://cdn.example.com/p__10-10_20-20.png/p__10-10_20-20.png?v=1#top'' then
        Some \<lparr> origin = ''https://cdn.example.com'',
               pathname = ''/p__10-10_20-20.png/p__10-10_20-20.png'',
               search = ''?v=1'', hash = ''#top'' \<rparr>
      else if base = None then None
      else if h = ''.//a__1-2.jpg'' then
        Some \<lparr> origin = ''http://u'', pathname = ''//a__1-2.jpg'', search = [], hash = [] \<rparr>
      else if h \<in> set [''img/photo__400-300_800-600.jpg'', ''test__400-400.jpg'',
                       ''img/pic__800-600-webp.jpg'', ''img/x__800-600_400-300.jpg'',
                       ''img/p__0400-0300.jpg'', ''a__1-2.j__pg'', ''a__0-0.jpg'',
                       ''a__1-2_.png'', ''assets/regular-image.jpg'',
                       ''a__9007199254740993-1-webp.jpg'',
                       ''a__1000000000000000000000-1.jpg''] then
        Some \<lparr> origin = ''http://u'', pathname = CHR ''/'' # h, search = [], hash = [] \<rparr>
      else None)"

section \<open>The strings the pattern accepts\<close>

text \<open>
  Predicates for the proofs below. A matcher \<open>consumes\<close> a set of strings when every
  input it leaves over is the input without a prefix from that set.
\<close>

definition consumes :: "matcher \<Rightarrow> (string \<Rightarrow> bool) \<Rightarrow> bool" where
  "consumes m P = (\<forall>s r. r \<in> set (m s) \<longrightarrow> (\<exists>p. s = p @ r \<and> P p))"

definition digits :: "string \<Rightarrow> bool" where
  "digits w = (w \<noteq> [] \<and> list_all is_digit w)"

definition alnums :: "string \<Rightarrow> bool" where
  "alnums w = (w \<noteq> [] \<and> list_all is_alnum w)"

text \<open>A size token, a size list and an extension, as the pattern spells them.\<close>

definition size_token :: "string \<Rightarrow> bool" where
  "size_token t = (\<exists>w h. digits w \<and> digits h \<and>
      (t = w @ ''-'' @ h \<or> (\<exists>x. alnums x \<and> t = w @ ''-'' @ h @ ''-'' @ x)))"

definition size_list :: "string \<Rightarrow> bool" where
  "size_list z = (\<exists>t ts. size_token t \<and> list_all size_token ts \<and>
      z = t @ concat (map ((#) CHR ''_'') ts))"

definition extension :: "string \<Rightarrow> bool" where
  "extension e = (\<exists>x. x \<noteq> [] \<and> CHR ''.'' \<notin> set x \<and> e = CHR ''.'' # x)"

text \<open>The order of the Numbers that are not NaN, and the order of the variants by width.\<close>

fun number_le :: "number \<Rightarrow> number \<Rightarrow> bool" where
  "number_le NaN y = False"
| "number_le x NaN = False"
| "number_le NegInfinity y = True"
| "number_le x Infinity = True"
| "number_le (Num m) (Num n) = (m \<le> n)"
| "number_le x y = False"

definition width_le :: "variant \<Rightarrow> variant \<Rightarrow> bool" where
  "width_le a b = number_le (width a) (width b)"

text \<open>
  A replacement pattern of \<^verbatim>\<open>String.prototype.replace\<close> occurs in a string: a \<^verbatim>\<open>$\<close>
  followed by \<^verbatim>\<open>$\<close>, \<^verbatim>\<open>&\<close>, a backtick or a quote.
\<close>

fun hasReplacementPattern :: "string \<Rightarrow> bool" where
  "hasReplacementPattern (c # d # r) =
     ((c = CHR ''$'' \<and> (d = CHR ''$'' \<or> d = CHR ''&'' \<or> d = CHR 0x60 \<or> d = CHR 0x27))
      \<or> hasReplacementPattern (d # r))"
| "hasReplacementPattern r = False"

text \<open>The pathname up to its final segment.\<close>

definition directory :: "string \<Rightarrow> string" where
  "directory pn = take (length pn - length (lastSegment pn)) pn"

section \<open>Soundness of the matcher\<close>

lemma consumesI: "(\<And>s r. r \<in> set (m s) \<Longrightarrow> \<exists>p. s = p @ r \<and> P p) \<Longrightarrow> consumes m P"
  by (simp add: consumes_def)

lemma consumesD: "consumes m P \<Longrightarrow> r \<in> set (m s) \<Longrightarrow> \<exists>p. s = p @ r \<and> P p"
  by (simp add: consumes_def)

lemma consumes_weaken: "consumes m P \<Longrightarrow> (\<And>p. P p \<Longrightarrow> Q p) \<Longrightarrow> consumes m Q"
  unfolding consumes_def by blast

lemma consumes_class: "consumes (re_class Q) (\<lambda>p. \<exists>c. p = [c] \<and> Q c)"
  by (rule consumesI) (auto simp: re_class_def split: list.splits if_splits)

lemma consumes_char: "consumes (re_char c) (\<lambda>p. p = [c])"
  unfolding re_char_def by (rule consumes_weaken [OF consumes_class]) auto

lemma consumes_seq:
  assumes "consumes m1 P1" and "consumes m2 P2"
  shows "consumes (re_seq m1 m2) (\<lambda>p. \<exists>a b. p = a @ b \<and> P1 a \<and> P2 b)"
proof (rule consumesI)
  fix s r assume "r \<in> set (re_seq m1 m2 s)"
  then obtain r1 where r1: "r1 \<in> set (m1 s)" and r: "r \<in> set (m2 r1)"
    by (auto simp: re_seq_def)
  from consumesD [OF assms(1) r1] obtain a where a: "s = a @ r1" "P1 a" by blast
  from consumesD [OF assms(2) r] obtain b where b: "r1 = b @ r" "P2 b" by blast
  from a b have "s = (a @ b) @ r" by simp
  with a b show "\<exists>p. s = p @ r \<and> (\<exists>a b. p = a @ b \<and> P1 a \<and> P2 b)" by blast
qed

lemma consumes_opt: "consumes m P \<Longrightarrow> consumes (re_opt m) (\<lambda>p. p = [] \<or> P p)"
  unfolding consumes_def re_opt_def by auto

lemma consumes_star_n:
  assumes "consumes m P"
  shows "consumes (re_star_n n m) (\<lambda>p. \<exists>ps. p = concat ps \<and> list_all P ps)"
proof (induction n)
  case 0
  show ?case
    by (rule consumesI) (auto intro: exI [of _ "[]"])
next
  case (Suc n)
  show ?case
  proof (rule consumesI)
    fix s r assume "r \<in> set (re_star_n (Suc n) m s)"
    then consider "r = s" | r1 where "r1 \<in> set (m s)" "r \<in> set (re_star_n n m r1)"
      by auto
    then show "\<exists>p. s = p @ r \<and> (\<exists>ps. p = concat ps \<and> list_all P ps)"
    proof cases
      case 1
      then show ?thesis by (auto intro: exI [of _ "[]"])
    next
      case 2
      from consumesD [OF assms 2(1)] obtain a where a: "s = a @ r1" "P a" by blast
      from consumesD [OF Suc 2(2)] obtain ps where ps: "r1 = concat ps @ r" "list_all P ps"
        by blast
      from a ps have "s = concat (a # ps) @ r" "list_all P (a # ps)" by simp_all
      then show ?thesis by blast
    qed
  qed
qed

lemma consumes_star:
  "consumes m P \<Longrightarrow> consumes (re_star m) (\<lambda>p. \<exists>ps. p = concat ps \<and> list_all P ps)"
  using consumes_star_n [of m P] unfolding consumes_def re_star_def by blast

lemma concat_singletons:
  "list_all (\<lambda>p. \<exists>c. p = [c] \<and> Q c) ps \<Longrightarrow> list_all Q (concat ps)"
  by (induction ps) auto

lemma consumes_plus_class:
  "consumes (re_plus (re_class Q)) (\<lambda>p. p \<noteq> [] \<and> list_all Q p)"
  unfolding re_plus_def
  by (rule consumes_weaken [OF consumes_seq [OF consumes_class consumes_star [OF consumes_class]]])
     (auto dest: concat_singletons)

lemma consumes_size: "consumes re_size size_token"
  unfolding re_size_def
  apply (rule consumes_weaken [OF consumes_seq [OF consumes_plus_class
      consumes_seq [OF consumes_char consumes_seq [OF consumes_plus_class
        consumes_opt [OF consumes_seq [OF consumes_char consumes_plus_class]]]]]])
  apply (auto simp: size_token_def digits_def alnums_def)
  done

lemma concat_sep_tokens:
  "list_all (\<lambda>p. \<exists>b. p = c # b \<and> P b) ps
   \<Longrightarrow> \<exists>ts. list_all P ts \<and> concat ps = concat (map ((#) c) ts)"
proof (induction ps)
  case Nil
  show ?case by (rule exI [of _ "[]"]) simp
next
  case (Cons p ps)
  then obtain b ts where "p = c # b" "P b" "list_all P ts" "concat ps = concat (map ((#) c) ts)"
    by auto
  then have "list_all P (b # ts) \<and> concat (p # ps) = concat (map ((#) c) (b # ts))" by simp
  then show ?case by blast
qed

lemma consumes_sizes: "consumes re_sizes size_list"
  unfolding re_sizes_def
proof (rule consumes_weaken [OF consumes_seq [OF consumes_size
      consumes_star [OF consumes_seq [OF consumes_char consumes_size]]]])
  fix p
  assume "\<exists>a b. p = a @ b \<and> size_token a \<and>
    (\<exists>ps. b = concat ps \<and>
       list_all (\<lambda>p. \<exists>a b. p = a @ b \<and> a = [CHR ''_''] \<and> size_token b) ps)"
  then obtain a ps where a: "p = a @ concat ps" "size_token a"
    and ps: "list_all (\<lambda>p. \<exists>b. p = CHR ''_'' # b \<and> size_token b) ps"
    by auto
  from concat_sep_tokens [OF ps] obtain ts where
    "list_all size_token ts" "concat ps = concat (map ((#) CHR ''_'') ts)" by blast
  with a show "size_list p" unfolding size_list_def by blast
qed

lemma consumes_ext: "consumes re_ext extension"
  unfolding re_ext_def
  apply (rule consumes_weaken [OF consumes_seq [OF consumes_char consumes_plus_class]])
  apply (auto simp: extension_def list_all_iff)
  done

lemma consumes_base: "consumes re_base (list_all (\<lambda>c. \<not> is_line_terminator c))"
  unfolding re_base_def
  by (rule consumes_weaken [OF consumes_star [OF consumes_class]])
     (auto dest: concat_singletons)

lemma regex_matches_sound:
  assumes "(b, z, e) \<in> set (regex_matches s)"
  shows "s = b @ ''__'' @ z @ e \<and> list_all (\<lambda>c. \<not> is_line_terminator c) b
         \<and> size_list z \<and> extension e"
proof -
  from assms obtain r1 r2 r3 where
    r1: "r1 \<in> set (re_base s)" and
    r2: "r2 \<in> set (re_seq (re_char CHR ''_'') (re_char CHR ''_'') r1)" and
    r3: "r3 \<in> set (re_sizes r2)" and
    r4: "[] \<in> set (re_ext r3)" and
    b: "b = take (length s - length r1) s" and
    z: "z = take (length r2 - length r3) r2" and
    e: "e = take (length r3) r3"
    by (auto simp: regex_matches_def split: if_splits)
  from consumesD [OF consumes_base r1] obtain p1 where
    p1: "s = p1 @ r1" "list_all (\<lambda>c. \<not> is_line_terminator c) p1" by blast
  from consumesD [OF consumes_seq [OF consumes_char consumes_char] r2]
  have p2: "r1 = ''__'' @ r2" by auto
  from consumesD [OF consumes_sizes r3] obtain p3 where
    p3: "r2 = p3 @ r3" "size_list p3" by blast
  from consumesD [OF consumes_ext r4] have p4: "extension r3" by auto
  from p1 b have "b = p1" by simp
  moreover from p3 z have "z = p3" by simp
  moreover from e have "e = r3" by simp
  ultimately show ?thesis using p1 p2 p3 p4 by simp
qed

lemma regex_match_sound:
  assumes "regex_match s = Some (b, z, e)"
  shows "s = b @ ''__'' @ z @ e \<and> list_all (\<lambda>c. \<not> is_line_terminator c) b
         \<and> size_list z \<and> extension e"
proof -
  from assms have "(b, z, e) \<in> set (regex_matches s)"
    by (auto simp: regex_match_def split: list.splits)
  then show ?thesis by (rule regex_matches_sound)
qed

section \<open>Splitting the size list\<close>

lemma split_not_Nil: "split s c \<noteq> []"
  by (induction s) (auto split: list.splits)

lemma split_no_sep: "c \<notin> set w \<Longrightarrow> split w c = [w]"
  by (induction w) auto

lemma split_append_sep: "c \<notin> set w \<Longrightarrow> split (w @ c # r) c = w # split r c"
  by (induction w) auto

lemma is_digit_not_special:
  "is_digit c \<Longrightarrow> c \<noteq> CHR ''-'' \<and> c \<noteq> CHR ''_'' \<and> c \<noteq> CHR ''.'' \<and> c \<noteq> CHR ''+''
     \<and> \<not> is_white_space c"
  by (auto simp: is_digit_def is_white_space_def is_line_terminator_def)

lemma is_alnum_not_special:
  "is_alnum c \<Longrightarrow> c \<noteq> CHR ''-'' \<and> c \<noteq> CHR ''_'' \<and> c \<noteq> CHR ''.''"
  by (auto simp: is_alnum_def is_digit_def)

lemma digits_chars:
  "digits w \<Longrightarrow> w \<noteq> [] \<and> CHR ''-'' \<notin> set w \<and> CHR ''_'' \<notin> set w \<and> CHR ''.'' \<notin> set w"
  by (auto simp: digits_def list_all_iff dest: is_digit_not_special)

lemma alnums_chars:
  "alnums w \<Longrightarrow> w \<noteq> [] \<and> CHR ''-'' \<notin> set w \<and> CHR ''_'' \<notin> set w \<and> CHR ''.'' \<notin> set w"
  by (auto simp: alnums_def list_all_iff dest: is_alnum_not_special)

lemma size_token_split:
  assumes "size_token t"
  shows "\<exists>w h. digits w \<and> digits h \<and>
           (split t CHR ''-'' = [w, h] \<or> (\<exists>x. alnums x \<and> split t CHR ''-'' = [w, h, x]))"
proof -
  from assms obtain w h where wh: "digits w" "digits h"
    and t: "t = w @ ''-'' @ h \<or> (\<exists>x. alnums x \<and> t = w @ ''-'' @ h @ ''-'' @ x)"
    unfolding size_token_def by blast
  from t show ?thesis
  proof
    assume "t = w @ ''-'' @ h"
    with wh have "split t CHR ''-'' = [w, h]"
      by (simp add: split_append_sep split_no_sep digits_chars)
    with wh show ?thesis by blast
  next
    assume "\<exists>x. alnums x \<and> t = w @ ''-'' @ h @ ''-'' @ x"
    then obtain x where x: "alnums x" "t = w @ ''-'' @ h @ ''-'' @ x" by blast
    with wh have "split t CHR ''-'' = [w, h, x]"
      by (simp add: split_append_sep split_no_sep digits_chars alnums_chars)
    with wh x show ?thesis by blast
  qed
qed

lemma digits_hd: "digits w \<Longrightarrow> hd (w @ r) \<noteq> CHR ''_''"
  by (cases w) (auto simp: digits_def dest: is_digit_not_special)

lemma size_token_chars:
  "size_token t \<Longrightarrow> t \<noteq> [] \<and> CHR ''_'' \<notin> set t \<and> CHR ''.'' \<notin> set t \<and> hd t \<noteq> CHR ''_''"
  unfolding size_token_def
  by (auto dest: digits_chars alnums_chars digits_hd)

lemma split_sep_tokens:
  "c \<notin> set t \<Longrightarrow> list_all (\<lambda>t. c \<notin> set t) ts
   \<Longrightarrow> split (t @ concat (map ((#) c) ts)) c = t # ts"
proof (induction ts arbitrary: t)
  case Nil
  then show ?case by (simp add: split_no_sep)
next
  case (Cons u ts)
  then show ?case by (simp add: split_append_sep)
qed

lemma size_list_split:
  assumes "size_list z"
  shows "list_all size_token (split z CHR ''_'')"
proof -
  from assms obtain t ts where t: "size_token t" "list_all size_token ts"
    and z: "z = t @ concat (map ((#) CHR ''_'') ts)"
    unfolding size_list_def by blast
  from t have "CHR ''_'' \<notin> set t" "list_all (\<lambda>t. CHR ''_'' \<notin> set t) ts"
    by (auto simp: list_all_iff dest: size_token_chars)
  then have "split z CHR ''_'' = t # ts" unfolding z by (rule split_sep_tokens)
  with t show ?thesis by simp
qed

lemma size_list_chars:
  assumes "size_list z"
  shows "z \<noteq> [] \<and> CHR ''.'' \<notin> set z \<and> hd z \<noteq> CHR ''_''"
proof -
  from assms obtain t ts where t: "size_token t" "list_all size_token ts"
    and z: "z = t @ concat (map ((#) CHR ''_'') ts)"
    unfolding size_list_def by blast
  from t(2) have "CHR ''.'' \<notin> set (concat (map ((#) CHR ''_'') ts))"
    by (induction ts) (auto dest: size_token_chars)
  with size_token_chars [OF t(1)] show ?thesis unfolding z by (auto simp: hd_append)
qed

section \<open>Rounding and printing a parsed number\<close>

lemma bit_length_upper: "n < 2 ^ k \<Longrightarrow> bit_length n \<le> k"
proof (induction k arbitrary: n)
  case 0
  then show ?case by (simp add: bit_length.simps)
next
  case (Suc k)
  show ?case
  proof (cases "n \<le> 0")
    case True
    then show ?thesis by (simp add: bit_length.simps)
  next
    case False
    from Suc.prems have "n div 2 < 2 ^ k" by simp
    then have "bit_length (n div 2) \<le> k" by (rule Suc.IH)
    with False show ?thesis by (simp add: bit_length.simps [of n])
  qed
qed

lemma bit_length_lower: "0 < n \<Longrightarrow> 2 ^ (bit_length n - 1) \<le> n"
proof (induction n rule: bit_length.induct)
  case (1 n)
  show ?case
  proof (cases "n div 2 \<le> 0")
    case True
    with "1.prems" have "bit_length n = 1"
      by (simp add: bit_length.simps [of n] bit_length.simps [of "n div 2"] bit_length.simps [of 0])
    with "1.prems" show ?thesis by simp
  next
    case False
    with "1.prems" "1.IH" have IH: "2 ^ (bit_length (n div 2) - 1) \<le> n div 2" by simp
    from False have "bit_length (n div 2) \<noteq> 0" by (simp add: bit_length.simps [of "n div 2"])
    then obtain j where j: "bit_length (n div 2) = Suc j" by (cases "bit_length (n div 2)") auto
    with IH have "(2::int) ^ j \<le> n div 2" by simp
    then have "(2::int) ^ Suc j \<le> n" by simp
    moreover from "1.prems" j have "bit_length n = Suc (Suc j)" by (simp add: bit_length.simps [of n])
    ultimately show ?thesis by simp
  qed
qed

lemma to_double_exact:
  assumes "0 \<le> n" and "n < 9007199254740992"
  shows "to_double n = Num n"
proof -
  from assms(2) have "n < 2 ^ 53" by simp
  then have b: "bit_length n \<le> 53" by (rule bit_length_upper)
  then have e: "bit_length n - 53 = 0" by simp
  from b have "\<not> 1024 < bit_length n" by simp
  then show ?thesis by (simp add: to_double_def Let_def e)
qed

lemma to_double_positive:
  assumes "0 < n"
  shows "positive (to_double n) \<and> to_double n \<noteq> NaN \<and> to_double n \<noteq> NegInfinity"
proof -
  define p :: int where "p = 2 ^ (bit_length n - 53)"
  define q where "q = n div p"
  have "(2::int) ^ (bit_length n - 53) \<le> 2 ^ (bit_length n - 1)"
    by (rule power_increasing) simp_all
  from this bit_length_lower [OF assms] have "p \<le> n" unfolding p_def by (rule order_trans)
  moreover have "0 < p" by (simp add: p_def)
  ultimately have "p div p \<le> n div p" by (rule zdiv_mono1)
  with \<open>0 < p\<close> have q: "1 \<le> q" unfolding q_def by simp
  with \<open>0 < p\<close> have "0 < q * p" "0 < (q + 1) * p" by simp_all
  then show ?thesis
    unfolding to_double_def Let_def p_def [symmetric] q_def [symmetric] by auto
qed

lemma to_double_zero: "to_double 0 = Num 0"
  by (simp add: to_double_exact)

lemma to_double_not_NaN: "0 \<le> n \<Longrightarrow> to_double n \<noteq> NaN \<and> to_double n \<noteq> NegInfinity"
proof (cases "n = 0")
  case True
  then show ?thesis by (simp add: to_double_zero)
next
  case False
  assume "0 \<le> n"
  with False have "0 < n" by simp
  from to_double_positive [OF this] show ?thesis by simp
qed

lemma positive_nearest_double: "positive (nearest_double d) \<longleftrightarrow> 0 < d"
proof (cases "d < 0")
  case True
  then have "0 < - d" by simp
  from to_double_positive [OF this] True show ?thesis
    by (cases "to_double (- d)") (auto simp: nearest_double_def)
next
  case False
  show ?thesis
  proof (cases "d = 0")
    case True
    then show ?thesis by (simp add: nearest_double_def to_double_zero)
  next
    case nz: False
    with False have "0 < d" by simp
    with to_double_positive [OF this] show ?thesis by (simp add: nearest_double_def)
  qed
qed

lemma digit_value_int: "digit_value c = int (of_char c) - 48"
  by (simp add: digit_value_def of_nat_of_char)

lemma digit_char_roundtrip: "is_digit c \<Longrightarrow> char_of (48 + digit_value c) = c"
  by (simp add: digit_value_def)

lemma digit_value_range: "is_digit c \<Longrightarrow> 0 \<le> digit_value c \<and> digit_value c < 10"
  by (auto simp: is_digit_def digit_value_int)

lemma digit_value_zero: "is_digit c \<Longrightarrow> digit_value c = 0 \<longleftrightarrow> c = CHR ''0''"
proof -
  assume "is_digit c"
  then have "digit_value c = 0 \<longleftrightarrow> (of_char c :: nat) = of_char CHR ''0''"
    by (auto simp: is_digit_def digit_value_int)
  then show ?thesis by (simp only: of_char_eq_iff)
qed

lemma digits_value_Nil: "digits_value [] = 0"
  by (simp add: digits_value_def)

lemma digits_value_snoc: "digits_value (ds @ [d]) = 10 * digits_value ds + digit_value d"
  by (simp add: digits_value_def)

lemma digits_value_nonneg: "list_all is_digit ds \<Longrightarrow> 0 \<le> digits_value ds"
  by (induction ds rule: rev_induct) (auto simp: digits_value_Nil digits_value_snoc dest: digit_value_range)

lemma int_to_string_digit: "is_digit d \<Longrightarrow> int_to_string (digit_value d) = [d]"
  using int_to_string.simps [of "digit_value d"]
  by (simp add: digit_value_range digit_char_roundtrip)

lemma int_to_string_step:
  "0 \<le> d \<Longrightarrow> d < 10 \<Longrightarrow> 0 \<le> n \<Longrightarrow> int_to_string (10 * n + d) =
     (if n = 0 then [char_of (48 + d)] else int_to_string n @ [char_of (48 + d)])"
  by (subst int_to_string.simps) auto

lemma digits_value_zero:
  "list_all is_digit ds \<Longrightarrow> digits_value ds = 0 \<longleftrightarrow> dropWhile (\<lambda>c. c = CHR ''0'') ds = []"
proof (induction ds rule: rev_induct)
  case Nil
  show ?case by (simp add: digits_value_Nil)
next
  case (snoc d ds)
  then have d: "is_digit d" and ds: "list_all is_digit ds" by simp_all
  from digit_value_range [OF d] digits_value_nonneg [OF ds]
  have "10 * digits_value ds + digit_value d = 0 \<longleftrightarrow> digits_value ds = 0 \<and> digit_value d = 0"
    by arith
  with snoc.IH [OF ds] d show ?case
    by (auto simp: digits_value_snoc digit_value_zero dropWhile_append)
qed

lemma int_to_string_digits_value:
  "list_all is_digit ds \<Longrightarrow> ds \<noteq> [] \<Longrightarrow> int_to_string (digits_value ds) = canonical ds"
proof (induction ds rule: rev_induct)
  case Nil
  then show ?case by simp
next
  case (snoc d ds)
  then have d: "is_digit d" and ds: "list_all is_digit ds" by simp_all
  note r = digit_value_range [OF d] digits_value_nonneg [OF ds]
  show ?case
  proof (cases "dropWhile (\<lambda>c. c = CHR ''0'') ds = []")
    case True
    with ds have "digits_value ds = 0" by (simp add: digits_value_zero)
    moreover from True have "canonical (ds @ [d]) = [d]"
      by (auto simp: canonical_def dropWhile_append)
    ultimately show ?thesis
      using d by (simp add: digits_value_snoc int_to_string_digit)
  next
    case False
    with ds have nz: "digits_value ds \<noteq> 0" by (simp add: digits_value_zero)
    from False have "ds \<noteq> []" by auto
    with snoc ds have IH: "int_to_string (digits_value ds) = canonical ds" by simp
    from False have "canonical (ds @ [d]) = canonical ds @ [d]"
      by (auto simp: canonical_def dropWhile_append split: list.splits)
    with IH nz d r show ?thesis
      by (simp add: digits_value_snoc int_to_string_step digit_char_roundtrip)
  qed
qed

lemma parseInt10_digits:
  assumes "digits w"
  shows "parseInt10 w = to_double (digits_value w)"
proof -
  from assms obtain c r where w: "w = c # r" "is_digit c" "list_all is_digit r"
    by (cases w) (auto simp: digits_def)
  then have *: "dropWhile is_white_space w = w" "hd w \<noteq> CHR ''-''" "hd w \<noteq> CHR ''+''"
    "takeWhile is_digit w = w" "w \<noteq> []"
    by (auto dest: is_digit_not_special simp: list_all_iff)
  from assms have "0 \<le> digits_value w" by (simp add: digits_def digits_value_nonneg)
  then show ?thesis by (simp add: parseInt10_def Let_def * nearest_double_def)
qed

lemma parseInt10_safe:
  assumes "digits w" and "digits_value w \<le> int MAX_SAFE_INTEGER"
  shows "parseInt10 w = Num (digits_value w)"
    and "number_to_string (parseInt10 w) = canonical w"
proof -
  from assms(1) have n: "0 \<le> digits_value w" by (simp add: digits_def digits_value_nonneg)
  from assms(2) have b: "digits_value w < 9007199254740992" by (simp add: MAX_SAFE_INTEGER_def)
  from to_double_exact [OF n b] show p: "parseInt10 w = Num (digits_value w)"
    by (simp add: parseInt10_digits [OF assms(1)])
  from assms(1) n b show "number_to_string (parseInt10 w) = canonical w"
    unfolding p by (simp add: double_to_string_def int_to_string_digits_value digits_def)
qed

section \<open>Decoding and sorting the variants\<close>

lemma decodeToken_fields:
  assumes "split tok CHR ''-'' = w # h # rest" and "digits w" and "digits h"
  shows "width (decodeToken e tok) = to_double (digits_value w)"
    and "height (decodeToken e tok) = to_double (digits_value h)"
    and "token (decodeToken e tok) =
           number_to_string (to_double (digits_value w)) @ ''-''
             @ number_to_string (to_double (digits_value h))"
    and "ext (decodeToken e tok) =
           (case rest of [] \<Rightarrow> e | x # _ \<Rightarrow> if x = [] then e else CHR ''.'' # x)"
  using assms
  by (auto simp: decodeToken_def Let_def at_index_def parseInt10_of_def parseInt10_digits
      truthy_def split: list.splits)

lemma decodeToken_safe:
  assumes "split tok CHR ''-'' = w # h # rest" and "digits w" and "digits h"
    and "digits_value w \<le> int MAX_SAFE_INTEGER" and "digits_value h \<le> int MAX_SAFE_INTEGER"
  shows "width (decodeToken e tok) = Num (digits_value w)"
    and "height (decodeToken e tok) = Num (digits_value h)"
    and "number_to_string (width (decodeToken e tok)) = canonical w"
    and "number_to_string (height (decodeToken e tok)) = canonical h"
    and "token (decodeToken e tok) = canonical w @ ''-'' @ canonical h"
  using decodeToken_fields(1,2,3) [OF assms(1,2,3), of e]
    parseInt10_safe [OF assms(2,4)] parseInt10_safe [OF assms(3,5)]
  by (simp_all add: parseInt10_digits [OF assms(2)] parseInt10_digits [OF assms(3)])

lemma decodeToken_digits_nonneg:
  assumes "digits w"
  shows "0 \<le> digits_value w"
  using assms by (simp add: digits_def digits_value_nonneg)

lemma set_insert_sorted: "set (insert_sorted cmp x ys) = insert x (set ys)"
  by (induction ys) auto

lemma mset_insert_sorted: "mset (insert_sorted cmp x ys) = add_mset x (mset ys)"
  by (induction ys) auto

lemma mset_sort_with: "mset (sort_with cmp xs) = mset xs"
  by (induction xs) (auto simp: sort_with_def mset_insert_sorted)

lemma set_sort_with: "set (sort_with cmp xs) = set xs"
  using mset_sort_with [of cmp xs] by (metis set_mset_mset)

lemma number_le_trans: "number_le x y \<Longrightarrow> number_le y z \<Longrightarrow> number_le x z"
  by (cases x; cases y; cases z) auto

lemma positive_subtract:
  assumes "x \<noteq> NaN" and "y \<noteq> NaN"
  shows "positive (subtract x y) \<Longrightarrow> number_le y x"
    and "\<not> positive (subtract x y) \<Longrightarrow> number_le x y"
  using assms by (cases x; cases y; simp add: positive_nearest_double)+

lemma sorted_insert_sorted:
  assumes "sorted_wrt width_le ys" and "\<forall>y\<in>set ys. width y \<noteq> NaN" and "width x \<noteq> NaN"
  shows "sorted_wrt width_le (insert_sorted compareWidth x ys)"
  using assms
proof (induction ys)
  case Nil
  then show ?case by simp
next
  case (Cons y ys)
  from Cons.prems have n: "width x \<noteq> NaN" "width y \<noteq> NaN" by auto
  show ?case
  proof (cases "positive (compareWidth x y)")
    case False
    with positive_subtract(2) [OF n] have xy: "width_le x y"
      by (simp add: compareWidth_def width_le_def)
    have "\<forall>z\<in>set ys. width_le x z"
    proof
      fix z assume "z \<in> set ys"
      with Cons.prems(1) have "width_le y z" by simp
      with xy show "width_le x z" unfolding width_le_def by (rule number_le_trans)
    qed
    with False xy Cons.prems(1) show ?thesis by simp
  next
    case True
    with positive_subtract(1) [OF n] have yx: "width_le y x"
      by (simp add: compareWidth_def width_le_def)
    from Cons have "sorted_wrt width_le (insert_sorted compareWidth x ys)" by simp
    with True yx Cons.prems(1) show ?thesis by (simp add: set_insert_sorted)
  qed
qed

lemma sorted_sort_with:
  "\<forall>y\<in>set xs. width y \<noteq> NaN \<Longrightarrow> sorted_wrt width_le (sort_with compareWidth xs)"
proof (induction xs)
  case Nil
  then show ?case by (simp add: sort_with_def)
next
  case (Cons x xs)
  then have "sorted_wrt width_le (sort_with compareWidth xs)" by simp
  moreover from Cons.prems have "\<forall>y\<in>set (sort_with compareWidth xs). width y \<noteq> NaN"
    by (simp add: set_sort_with)
  moreover from Cons.prems have "width x \<noteq> NaN" by simp
  ultimately have "sorted_wrt width_le (insert_sorted compareWidth x (sort_with compareWidth xs))"
    by (rule sorted_insert_sorted)
  then show ?case by (simp add: sort_with_def)
qed

lemma size_token_decode:
  assumes "size_token tok"
  shows "\<exists>w h rest. split tok CHR ''-'' = w # h # rest \<and> digits w \<and> digits h
           \<and> (rest = [] \<or> (\<exists>x. alnums x \<and> rest = [x]))"
  using size_token_split [OF assms] by auto

lemma processVariants_set:
  "set (processVariants z e) = decodeToken e ` set (split z CHR ''_'')"
  by (simp add: processVariants_def set_sort_with)

lemma processVariants_not_Nil: "processVariants z e \<noteq> []"
proof -
  have "set (processVariants z e) \<noteq> {}"
    using split_not_Nil [of z "CHR ''_''"] by (simp add: processVariants_set)
  then show ?thesis by auto
qed

lemma matched_tokens:
  assumes "regex_match fn = Some (b, z, e)" and "tok \<in> set (split z CHR ''_'')"
  shows "size_token tok"
  using regex_match_sound [OF assms(1)] size_list_split [of z] assms(2)
  by (auto simp: list_all_iff)


lemma matched_widths_not_NaN:
  assumes "regex_match fn = Some (b, z, e)"
  shows "\<forall>v\<in>set (map (decodeToken e) (split z CHR ''_'')). width v \<noteq> NaN"
proof
  fix v assume "v \<in> set (map (decodeToken e) (split z CHR ''_''))"
  then obtain tok where tok: "tok \<in> set (split z CHR ''_'')" and v: "v = decodeToken e tok"
    by auto
  from size_token_decode [OF matched_tokens [OF assms tok]] obtain w h rest where
    s: "split tok CHR ''-'' = w # h # rest" and d: "digits w" "digits h" by blast
  from decodeToken_fields(1) [OF s d, of e] to_double_not_NaN [OF decodeToken_digits_nonneg [OF d(1)]]
  show "width v \<noteq> NaN" unfolding v by simp
qed

section \<open>Rendering a matched reference\<close>

lemma pop_split: "pop (split s c) = Some (last (split s c))"
  by (simp add: pop_def split_not_Nil)

lemma lastSegment_eq: "lastSegment s = last (split s CHR ''/'')"
  by (simp add: lastSegment_def pop_split)

lemma pop_split_lastSegment: "pop (split s CHR ''/'') = Some (lastSegment s)"
  by (simp add: lastSegment_eq pop_split)

lemma startsWith_append: "startsWith (p @ r) p"
  by (simp add: startsWith_def)

lemma indexOf_startsWith: "startsWith s p \<Longrightarrow> indexOf s p = Some 0"
  by (cases s) (auto simp: startsWith_def)

lemma indexOf_append: "indexOf (a @ p @ r) p \<noteq> None"
  by (induction a) (auto simp: startsWith_append indexOf_startsWith)

lemma includes_str_append: "includes_str (a @ p @ r) p"
  by (simp add: includes_str_def indexOf_append)

lemma renderMatch_Inr:
  "renderMatch cfg tk p b z e =
     Inr (imgTag (href tk)
       (generateSrcset (processVariants z e) b (pathname p) (isAbsolute p) (origin p)
          (search p) (hash p) (href tk))
       (sizesAttr cfg) (last (processVariants z e)) (altText tk) (titleAttr tk)
       (lazyLoadingAttr cfg))"
  by (simp add: renderMatch_def Let_def pop_def processVariants_not_Nil)

lemma render_matched:
  assumes "parseUrl URL (href tk) = Some p"
    and "regex_match (lastSegment (pathname p)) = Some (b, z, e)"
  shows "render URL cfg tk =
     ([], Markup (imgTag (href tk)
       (generateSrcset (processVariants z e) b (pathname p) (isAbsolute p) (origin p)
          (search p) (hash p) (href tk))
       (sizesAttr cfg) (last (processVariants z e)) (altText tk) (titleAttr tk)
       (lazyLoadingAttr cfg)))"
  using assms by (simp add: render_def pop_split_lastSegment renderMatch_Inr)

lemma split_double_sep: "[] \<in> set (tl (split (u @ c # c # r) c))"
  by (induction u) (auto split: list.splits simp: split_not_Nil dest: list.set_sel(2) [rotated])

lemma size_list_no_double:
  assumes "size_list z"
  shows "z \<noteq> u @ ''__'' @ r"
proof
  assume "z = u @ ''__'' @ r"
  then have "[] \<in> set (tl (split z CHR ''_''))"
    using split_double_sep [of u "CHR ''_''" r] by simp
  then have "[] \<in> set (split z CHR ''_'')"
    by (meson list.set_sel(2) split_not_Nil)
  with size_list_split [OF assms] have "size_token []" by (simp add: list_all_iff)
  then show False using size_token_chars [of "[]"] by simp
qed

section \<open>Replacing the filename in the pathname\<close>

lemma startsWith_slash_slash: "startsWith s ''//'' \<longleftrightarrow> (\<exists>r. s = CHR ''/'' # CHR ''/'' # r)"
proof (cases s)
  case Nil
  then show ?thesis by (simp add: startsWith_def)
next
  case (Cons a r)
  then show ?thesis by (cases r) (auto simp: startsWith_def)
qed

lemma last_split_no_sep: "c \<notin> set (last (split s c))"
  by (induction s) (auto split: list.splits simp: split_not_Nil)

lemma split_single: "split s c = [y] \<Longrightarrow> y = s"
proof (induction s arbitrary: y)
  case Nil
  then show ?case by simp
next
  case (Cons x r)
  show ?case
  proof (cases "x = c")
    case True
    with Cons.prems show ?thesis by (simp add: split_not_Nil)
  next
    case False
    with Cons.prems obtain y' where "split r c = [y']" "y = x # y'"
      by (auto split: list.splits simp: split_not_Nil)
    with Cons.IH show ?thesis by simp
  qed
qed

lemma last_split_suffix: "\<exists>pre. s = pre @ last (split s c)"
proof (induction s)
  case Nil
  show ?case by simp
next
  case (Cons x s)
  then obtain pre where pre: "s = pre @ last (split s c)" by blast
  show ?case
  proof (cases "x = c")
    case True
    with pre have "x # s = (x # pre) @ last (split (x # s) c)" by (simp add: split_not_Nil)
    then show ?thesis by blast
  next
    case False
    obtain y ys where y: "split s c = y # ys"
      using split_not_Nil [of s c] by (cases "split s c") auto
    show ?thesis
    proof (cases ys)
      case Nil
      with y have "y = s" by (simp add: split_single)
      with y Nil False have "x # s = [] @ last (split (x # s) c)" by simp
      then show ?thesis by blast
    next
      case (Cons a as)
      with y False pre have "x # s = (x # pre) @ last (split (x # s) c)" by simp
      then show ?thesis by blast
    qed
  qed
qed

lemma indexOf_lastSegment: "indexOf s (lastSegment s) \<noteq> None"
proof -
  obtain pre where "s = pre @ lastSegment s @ []"
    using last_split_suffix [of s "CHR ''/''"] by (auto simp: lastSegment_eq)
  then show ?thesis using indexOf_append [of pre "lastSegment s" "[]"] by simp
qed

lemma canonical_chars: "c \<in> set (canonical w) \<Longrightarrow> c = CHR ''0'' \<or> c \<in> set w"
proof (cases "dropWhile (\<lambda>c. c = CHR ''0'') w")
  case Nil
  have "canonical w = ''0''" unfolding canonical_def Nil by simp
  moreover assume "c \<in> set (canonical w)"
  ultimately show ?thesis by simp
next
  case (Cons a r)
  have "canonical w = dropWhile (\<lambda>c. c = CHR ''0'') w" unfolding canonical_def Cons by simp
  moreover assume "c \<in> set (canonical w)"
  ultimately have "c \<in> set (dropWhile (\<lambda>c. c = CHR ''0'') w)" by simp
  then have "c \<in> set w" by (rule set_dropWhileD)
  then show ?thesis ..
qed

lemma canonical_no_dollar:
  assumes "digits w"
  shows "CHR ''$'' \<notin> set (canonical w)"
proof
  assume "CHR ''$'' \<in> set (canonical w)"
  then have "CHR ''$'' \<in> set w" using canonical_chars [of "CHR ''$''" w] by simp
  with assms have "is_digit CHR ''$''" by (simp add: digits_def list_all_iff)
  then show False by (simp add: is_digit_def)
qed

lemma alnums_no_dollar: "alnums x \<Longrightarrow> CHR ''$'' \<notin> set x"
proof
  assume "alnums x" and "CHR ''$'' \<in> set x"
  then have "is_alnum CHR ''$''" by (simp add: alnums_def list_all_iff)
  then show False by (simp add: is_alnum_def is_digit_def)
qed

lemma getSubstitution_keeps:
  assumes "c \<in> set r" and "c \<noteq> CHR ''$''" and "c \<noteq> CHR ''&''"
    and "c \<noteq> CHR 0x60" and "c \<noteq> CHR 0x27"
  shows "c \<in> set (getSubstitution m pre post r)"
  using assms by (induction m pre post r rule: getSubstitution.induct) auto

lemma getSubstitution_id:
  "\<not> hasReplacementPattern r \<Longrightarrow> getSubstitution m pre post r = r"
  by (induction m pre post r rule: getSubstitution.induct) auto

lemma getSubstitution_hd:
  assumes "r = c # r'" and "c \<noteq> CHR ''/''" and "m = x # m'" and "x \<noteq> CHR ''/''"
    and "\<not> startsWith r [CHR ''$'', CHR 0x60]" and "\<not> startsWith r [CHR ''$'', CHR 0x27]"
  shows "\<exists>y ys. getSubstitution m pre post r = y # ys \<and> y \<noteq> CHR ''/''"
proof (cases r')
  case Nil
  with assms(1,2) show ?thesis by simp
next
  case (Cons d r'')
  with assms show ?thesis by (auto simp: startsWith_def)
qed

lemma hasReplacementPattern_plain: "CHR ''$'' \<notin> set y \<Longrightarrow> \<not> hasReplacementPattern y"
  by (induction y rule: hasReplacementPattern.induct) auto

lemma hasReplacementPattern_after_plain:
  "CHR ''$'' \<notin> set m \<Longrightarrow> hasReplacementPattern (m @ y) = hasReplacementPattern y"
proof (induction m)
  case Nil
  show ?case by simp
next
  case (Cons c m)
  then have IH: "hasReplacementPattern (m @ y) = hasReplacementPattern y" and c: "c \<noteq> CHR ''$''"
    by auto
  show ?case
  proof (cases "m @ y")
    case Nil
    then show ?thesis by simp
  next
    case (Cons d r)
    with IH c show ?thesis by simp
  qed
qed

lemma hasReplacementPattern_before_underscore:
  "hasReplacementPattern (x @ CHR ''_'' # y)
     = (hasReplacementPattern x \<or> hasReplacementPattern (CHR ''_'' # y))"
proof (induction x)
  case Nil
  show ?case by simp
next
  case (Cons c x)
  then show ?case by (cases x) auto
qed

lemma variantFilename_hd:
  assumes "regex_match (lastSegment pn) = Some (b, z, e)"
  shows "\<exists>c r. variantFilename b v = c # r \<and> c \<noteq> CHR ''/''"
proof (cases b)
  case Nil
  then show ?thesis by (simp add: variantFilename_def)
next
  case (Cons c r)
  from regex_match_sound [OF assms] have "lastSegment pn = b @ ''__'' @ z @ e" by simp
  with Cons have "c \<in> set (lastSegment pn)" by simp
  with last_split_no_sep [of "CHR ''/''" pn] have "c \<noteq> CHR ''/''"
    by (auto simp: lastSegment_eq)
  with Cons show ?thesis by (simp add: variantFilename_def)
qed


lemma directory_lastSegment: "directory pn @ lastSegment pn = pn"
proof -
  obtain pre where pre: "pn = pre @ lastSegment pn"
    using last_split_suffix [of pn "CHR ''/''"] by (auto simp: lastSegment_eq)
  then have "length pn - length (lastSegment pn) = length pre"
    by (metis add_diff_cancel_right' length_append)
  then have "directory pn = take (length pre) pn" unfolding directory_def by simp
  also have "\<dots> = pre" using pre by (metis append_eq_conv_conj)
  finally show ?thesis using pre by simp
qed

lemma replace_final_segment:
  assumes "indexOf pn (lastSegment pn) = Some (length pn - length (lastSegment pn))"
    and "\<not> hasReplacementPattern r"
  shows "replace pn (lastSegment pn) r = directory pn @ r"
proof -
  have "length (directory pn) + length (lastSegment pn) = length pn"
    using directory_lastSegment [of pn] by (metis length_append)
  then have "length (lastSegment pn) \<le> length pn" by simp
  with assms show ?thesis
    by (simp add: replace_def Let_def getSubstitution_id directory_def)
qed

lemma finalUrl_final_segment:
  assumes "indexOf pn (lastSegment pn) = Some (length pn - length (lastSegment pn))"
    and "\<not> hasReplacementPattern (variantFilename b v)"
  shows "finalUrl (lastSegment pn) b pn ab og sr hs h v =
           (if ab then og @ directory pn @ variantFilename b v @ sr @ hs
            else (if startsWith (directory pn @ variantFilename b v) ''/'' \<and> \<not> startsWith h ''/''
                  then drop 1 (directory pn @ variantFilename b v)
                  else directory pn @ variantFilename b v) @ sr @ hs)"
  by (simp add: finalUrl_def Let_def replace_final_segment [OF assms])

lemma generateSrcset_entries:
  "generateSrcset vs b pn ab og sr hs h
     = join (map (\<lambda>v. finalUrl (lastSegment pn) b pn ab og sr hs h v
                        @ '' '' @ number_to_string (width v) @ ''w'') vs) '', ''"
  by (simp add: generateSrcset_def Let_def srcsetEntry_def [abs_def])

lemma digits_no_dollar: "digits w \<Longrightarrow> CHR ''$'' \<notin> set w"
proof
  assume "digits w" and "CHR ''$'' \<in> set w"
  then have "is_digit CHR ''$''" by (simp add: digits_def list_all_iff)
  then show False by (simp add: is_digit_def)
qed

lemma size_token_no_dollar:
  assumes "size_token t"
  shows "CHR ''$'' \<notin> set t"
proof -
  from assms obtain w h where wh: "digits w" "digits h"
    and t: "t = w @ ''-'' @ h \<or> (\<exists>x. alnums x \<and> t = w @ ''-'' @ h @ ''-'' @ x)"
    unfolding size_token_def by blast
  from t digits_no_dollar [OF wh(1)] digits_no_dollar [OF wh(2)] show ?thesis
    by (auto dest: alnums_no_dollar)
qed

lemma size_list_no_dollar:
  assumes "size_list z"
  shows "CHR ''$'' \<notin> set z"
proof -
  from assms obtain t ts where t: "size_token t" "list_all size_token ts"
    and z: "z = t @ concat (map ((#) CHR ''_'') ts)"
    unfolding size_list_def by blast
  from t(2) have "CHR ''$'' \<notin> set (concat (map ((#) CHR ''_'') ts))"
    by (induction ts) (auto dest: size_token_no_dollar)
  with size_token_no_dollar [OF t(1)] show ?thesis unfolding z by simp
qed

lemma filename_pattern_parts:
  assumes "regex_match fn = Some (b, z, e)" and "\<not> hasReplacementPattern fn"
  shows "\<not> hasReplacementPattern b" and "\<not> hasReplacementPattern e"
proof -
  from regex_match_sound [OF assms(1)] have fn: "fn = b @ CHR ''_'' # (CHR ''_'' # z) @ e"
    and z: "size_list z" by simp_all
  have "CHR ''$'' \<notin> set (CHR ''_'' # CHR ''_'' # z)" using size_list_no_dollar [OF z] by simp
  from hasReplacementPattern_after_plain [OF this, of e]
  have "hasReplacementPattern (CHR ''_'' # (CHR ''_'' # z) @ e) = hasReplacementPattern e" by simp
  with assms(2) hasReplacementPattern_before_underscore [of b "(CHR ''_'' # z) @ e"]
  show "\<not> hasReplacementPattern b" and "\<not> hasReplacementPattern e" unfolding fn by simp_all
qed

lemma variantFilename_pattern:
  assumes "\<not> hasReplacementPattern b" and "\<not> hasReplacementPattern (ext v)"
    and "CHR ''$'' \<notin> set (token v)"
  shows "\<not> hasReplacementPattern (variantFilename b v)"
proof -
  from assms(3) have "CHR ''$'' \<notin> set (CHR ''_'' # CHR ''_'' # token v)" by simp
  from hasReplacementPattern_after_plain [OF this, of "ext v"] assms(2)
  have "\<not> hasReplacementPattern (CHR ''_'' # (CHR ''_'' # token v) @ ext v)" by simp
  with assms(1) hasReplacementPattern_before_underscore [of b "(CHR ''_'' # token v) @ ext v"]
  show ?thesis by (simp add: variantFilename_def)
qed

lemma replace_keeps_underscore:
  "CHR ''_'' \<in> set (replace pn (lastSegment pn) (variantFilename b v))"
proof -
  from indexOf_lastSegment [of pn] obtain i where i: "indexOf pn (lastSegment pn) = Some i"
    by auto
  have "CHR ''_'' \<in> set (variantFilename b v)" by (simp add: variantFilename_def)
  then have "CHR ''_'' \<in> set (getSubstitution (lastSegment pn) (take i pn)
      (drop (i + length (lastSegment pn)) pn) (variantFilename b v))"
    by (rule getSubstitution_keeps) simp_all
  with i show ?thesis by (simp add: replace_def Let_def)
qed

lemma finalUrl_relative:
  assumes "\<not> startsWith h ''/''"
  shows "finalUrl fn b pn False og sr hs h v =
           (if startsWith (replace pn fn (variantFilename b v)) ''/''
            then drop 1 (replace pn fn (variantFilename b v))
            else replace pn fn (variantFilename b v)) @ sr @ hs"
  using assms by (simp add: finalUrl_def Let_def)

lemma stripped_starts_with_slash:
  assumes "CHR ''_'' \<in> set vp"
  shows "startsWith ((if startsWith vp ''/'' then drop 1 vp else vp) @ sr @ hs) ''/''
           \<longleftrightarrow> startsWith vp ''//''"
proof (cases vp)
  case Nil
  with assms show ?thesis by simp
next
  case (Cons x r)
  show ?thesis
  proof (cases r)
    case Nil
    with Cons assms show ?thesis by (auto simp: startsWith_def)
  next
    case (Cons y r')
    with \<open>vp = x # r\<close> show ?thesis by (auto simp: startsWith_def)
  qed
qed

lemma lastSegment_hd:
  assumes "regex_match (lastSegment pn) = Some (b, z, e)"
  shows "\<exists>x m. lastSegment pn = x # m \<and> x \<noteq> CHR ''/''"
proof -
  from regex_match_sound [OF assms] have "lastSegment pn = b @ ''__'' @ z @ e" by simp
  then have "lastSegment pn \<noteq> []" by simp
  then obtain x m where xm: "lastSegment pn = x # m" by (cases "lastSegment pn") auto
  then have "x \<in> set (lastSegment pn)" by simp
  with last_split_no_sep [of "CHR ''/''" pn] have "x \<noteq> CHR ''/''"
    by (auto simp: lastSegment_eq)
  with xm show ?thesis by blast
qed

lemma variantFilename_startsWith:
  assumes "c \<noteq> CHR ''_''"
  shows "startsWith (variantFilename b v) [CHR ''$'', c] \<longleftrightarrow> startsWith b [CHR ''$'', c]"
proof (cases b)
  case Nil
  then show ?thesis by (simp add: variantFilename_def startsWith_def)
next
  case (Cons x r)
  with assms show ?thesis by (cases r) (auto simp: variantFilename_def startsWith_def)
qed

lemma replace_no_double_slash:
  assumes "regex_match (lastSegment pn) = Some (b, z, e)"
    and "\<not> startsWith pn ''//''"
    and "\<not> startsWith b [CHR ''$'', CHR 0x60]" and "\<not> startsWith b [CHR ''$'', CHR 0x27]"
  shows "\<not> startsWith (replace pn (lastSegment pn) (variantFilename b v)) ''//''"
proof -
  let ?fn = "lastSegment pn" and ?vf = "variantFilename b v"
  from indexOf_lastSegment [of pn] obtain i where i: "indexOf pn ?fn = Some i" by auto
  let ?pre = "take i pn" and ?post = "drop (i + length ?fn) pn"
  from variantFilename_hd [OF assms(1), of v] obtain c r where
    c: "?vf = c # r" "c \<noteq> CHR ''/''" by blast
  from lastSegment_hd [OF assms(1)] obtain x m where
    x: "?fn = x # m" "x \<noteq> CHR ''/''" by blast
  from assms(3,4) have "\<not> startsWith ?vf [CHR ''$'', CHR 0x60]"
    "\<not> startsWith ?vf [CHR ''$'', CHR 0x27]"
    by (simp_all add: variantFilename_startsWith)
  from getSubstitution_hd [OF c x this, of ?pre ?post] obtain y ys where
    y: "getSubstitution ?fn ?pre ?post ?vf = y # ys" "y \<noteq> CHR ''/''" by blast
  with i have vp: "replace pn ?fn ?vf = ?pre @ y # ys @ ?post"
    by (simp add: replace_def Let_def)
  show ?thesis
  proof (cases ?pre)
    case Nil
    with vp y(2) show ?thesis by (simp add: startsWith_slash_slash)
  next
    case (Cons p1 pre')
    show ?thesis
    proof (cases pre')
      case Nil
      with vp Cons y(2) show ?thesis by (simp add: startsWith_slash_slash)
    next
      case (Cons p2 pre'')
      have "pn = ?pre @ drop i pn" by simp
      with \<open>?pre = p1 # pre'\<close> Cons have "pn = p1 # p2 # pre'' @ drop i pn" by simp
      with assms(2) have "\<not> (p1 = CHR ''/'' \<and> p2 = CHR ''/'')"
        by (auto simp: startsWith_slash_slash)
      with vp \<open>?pre = p1 # pre'\<close> Cons show ?thesis by (simp add: startsWith_slash_slash)
    qed
  qed
qed

section \<open>The variant of a size token within the exact range\<close>

lemma safe_token_variant:
  assumes "regex_match fn = Some (b, z, e)" and "tok \<in> set (split z CHR ''_'')"
    and "split tok CHR ''-'' = W # H # rest"
    and "digits_value W \<le> int MAX_SAFE_INTEGER" and "digits_value H \<le> int MAX_SAFE_INTEGER"
  shows "decodeToken e tok \<in> set (processVariants z e)"
    and "number_to_string (width (decodeToken e tok)) = canonical W"
    and "number_to_string (height (decodeToken e tok)) = canonical H"
    and "token (decodeToken e tok) = canonical W @ ''-'' @ canonical H"
    and "ext (decodeToken e tok) = (case rest of [] \<Rightarrow> e | x # _ \<Rightarrow> CHR ''.'' # x)"
    and "\<not> hasReplacementPattern fn
           \<Longrightarrow> \<not> hasReplacementPattern (variantFilename b (decodeToken e tok))"
proof -
  let ?v = "decodeToken e tok"
  from size_token_split [OF matched_tokens [OF assms(1,2)]] assms(3)
  have d: "digits W" "digits H" and rest: "rest = [] \<or> (\<exists>x. alnums x \<and> rest = [x])" by auto
  from assms(2) show "?v \<in> set (processVariants z e)" by (simp add: processVariants_set)
  from decodeToken_safe(3,4,5) [OF assms(3) d assms(4,5), of e]
  show "number_to_string (width ?v) = canonical W"
    and "number_to_string (height ?v) = canonical H"
    and tk: "token ?v = canonical W @ ''-'' @ canonical H" by simp_all
  from rest decodeToken_fields(4) [OF assms(3) d, of e]
  show ex: "ext ?v = (case rest of [] \<Rightarrow> e | x # _ \<Rightarrow> CHR ''.'' # x)"
    by (auto simp: alnums_def)
  assume p: "\<not> hasReplacementPattern fn"
  from canonical_no_dollar [OF d(1)] canonical_no_dollar [OF d(2)]
  have t: "CHR ''$'' \<notin> set (token ?v)" unfolding tk by simp
  have "\<not> hasReplacementPattern (ext ?v)"
    using rest
  proof
    assume "rest = []"
    with ex filename_pattern_parts(2) [OF assms(1) p] show ?thesis by simp
  next
    assume "\<exists>x. alnums x \<and> rest = [x]"
    then obtain x where x: "alnums x" "rest = [x]" by blast
    from alnums_no_dollar [OF x(1)] have "CHR ''$'' \<notin> set (CHR ''.'' # x)" by simp
    then have "\<not> hasReplacementPattern (CHR ''.'' # x)" by (rule hasReplacementPattern_plain)
    with ex x(2) show ?thesis by simp
  qed
  with filename_pattern_parts(1) [OF assms(1) p] t
  show "\<not> hasReplacementPattern (variantFilename b ?v)" by (intro variantFilename_pattern)
qed

lemma render_markup:
  assumes "parseUrl URL (href tk) = Some p"
    and "regex_match (lastSegment (pathname p)) = Some (b, z, e)"
  shows \<open>render URL cfg tk =
           ([], Markup (''<img class="md-img" src="'' @ href tk @ ''" srcset="''
              @ generateSrcset (processVariants z e) b (pathname p) (isAbsolute p) (origin p)
                  (search p) (hash p) (href tk)
              @ ''"'' @ sizesAttr cfg
              @ '' width="'' @ number_to_string (width (last (processVariants z e)))
              @ ''" height="'' @ number_to_string (height (last (processVariants z e)))
              @ ''" alt="'' @ altText tk @ ''"'' @ titleAttr tk @ lazyLoadingAttr cfg @ ''>''))\<close>
  using render_matched [OF assms, of cfg] by (simp add: imgTag_def)

section \<open>The example of the documentation\<close>

text \<open>
  C1, as stated: for the reference \<^verbatim>\<open>img/photo__400-300_800-600.jpg\<close> the srcset is
  \<^verbatim>\<open>img/photo__400-300.jpg 400w, img/photo__400-300_800-600.jpg 800w\<close>. It is not: the
  reference parses and matches, and the srcset built from it differs.
\<close>

theorem photo_example_srcset_is_not_the_original_filename:
  "parseUrl example_URL ''img/photo__400-300_800-600.jpg''
     = Some \<lparr> origin = [], pathname = ''/img/photo__400-300_800-600.jpg'',
              search = [], hash = [], isAbsolute = False \<rparr>
   \<and> regex_match ''photo__400-300_800-600.jpg'' = Some (''photo'', ''400-300_800-600'', ''.jpg'')
   \<and> generateSrcset (processVariants ''400-300_800-600'' ''.jpg'') ''photo''
         ''/img/photo__400-300_800-600.jpg'' False [] [] [] ''img/photo__400-300_800-600.jpg''
       \<noteq> ''img/photo__400-300.jpg 400w, img/photo__400-300_800-600.jpg 800w''"
  by code_simp

text \<open>
  C1, amended: for the reference \<^verbatim>\<open>img/photo__400-300_800-600.jpg\<close> the srcset is
  \<^verbatim>\<open>img/photo__400-300.jpg 400w, img/photo__800-600.jpg 800w\<close> (every variant, the largest
  too, is named base, \<^verbatim>\<open>__\<close>, its own size, extension), with \<^verbatim>\<open>width="800"\<close>,
  \<^verbatim>\<open>height="600"\<close> and the reference itself as \<^verbatim>\<open>src\<close>.
\<close>

theorem photo_example_markup:
  \<open>responsiveImages example_URL \<lparr>opt_sizes = None, opt_debug = None, opt_lazy = None\<rparr>
     \<lparr>href = ''img/photo__400-300_800-600.jpg'', title = None, text' = Some ''Alt''\<rparr>
   = ([], Markup ''<img class="md-img" src="img/photo__400-300_800-600.jpg" srcset="img/photo__400-300.jpg 400w, img/photo__800-600.jpg 800w" width="800" height="600" alt="Alt" loading="lazy">'')\<close>
  by code_simp

section \<open>The lazy-loading option\<close>

text \<open>
  C2. The option \<^verbatim>\<open>lazy\<close> should switch the attribute \<^verbatim>\<open>loading="lazy"\<close> off when it is
  \<^verbatim>\<open>false\<close>. The constructor computes \<^verbatim>\<open>options.lazy || true\<close>: built with \<^verbatim>\<open>lazy: false\<close>
  the extension still has its field set, and the tag rendered for \<^verbatim>\<open>test__400-400.jpg\<close>
  carries the attribute.
\<close>

theorem lazy_false_is_overridden:
  \<open>lazy (constructor \<lparr>opt_sizes = None, opt_debug = None, opt_lazy = Some False\<rparr>) = True
   \<and> responsiveImages example_URL \<lparr>opt_sizes = None, opt_debug = None, opt_lazy = Some False\<rparr>
        \<lparr>href = ''test__400-400.jpg'', title = None, text' = Some ''Sizes''\<rparr>
      = ([], Markup ''<img class="md-img" src="test__400-400.jpg" srcset="test__400-400.jpg 400w" width="400" height="400" alt="Sizes" loading="lazy">'')\<close>
  by code_simp

section \<open>Substituting the variant filename\<close>

text \<open>
  C3. A variant URL should differ from the reference in its final path segment only.
  \<^verbatim>\<open>pathname.replace(filename, variantFilename)\<close> replaces the first occurrence of the
  filename: when a directory bears the name of the file, the directory is renamed and the
  final segment is left as it was (origin, query and fragment are kept).
\<close>

theorem replace_hits_first_occurrence:
  \<open>responsiveImages example_URL \<lparr>opt_sizes = None, opt_debug = None, opt_lazy = None\<rparr>
     \<lparr>href = ''https://cdn.example.com/p__10-10_20-20.png/p__10-10_20-20.png?v=1#top'',
      title = None, text' = None\<rparr>
   = ([], Markup ''<img class="md-img" src="https://cdn.example.com/p__10-10_20-20.png/p__10-10_20-20.png?v=1#top" srcset="https://cdn.example.com/p__10-10.png/p__10-10_20-20.png?v=1#top 10w, https://cdn.example.com/p__20-20.png/p__10-10_20-20.png?v=1#top 20w" width="20" height="20" alt="" loading="lazy">'')\<close>
  by code_simp

section \<open>Width and height of a variant\<close>




section \<open>The size token of a variant filename\<close>

text \<open>
  C10, as stated: for every matched filename the size token rebuilt into a variant
  filename is the decimal rendering of the parsed width and height. The parsed width is
  a double, and a template literal prints a double from \<open>10^21\<close> on with an exponent: the
  variant of \<^verbatim>\<open>a__1000000000000000000000-1.jpg\<close> is named \<^verbatim>\<open>a__1e+21-1.jpg\<close>.
\<close>

theorem large_size_is_rebuilt_with_an_exponent:
  \<open>regex_match (lastSegment ''/a__1000000000000000000000-1.jpg'')
     = Some (''a'', ''1000000000000000000000-1'', ''.jpg'')
   \<and> map width (processVariants ''1000000000000000000000-1'' ''.jpg'')
       = [Num 1000000000000000000000]
   \<and> map token (processVariants ''1000000000000000000000-1'' ''.jpg'') = [''1e+21-1'']
   \<and> map (variantFilename ''a'') (processVariants ''1000000000000000000000-1'' ''.jpg'')
       = [''a__1e+21-1.jpg'']
   \<and> canonical ''1000000000000000000000'' = ''1000000000000000000000''
   \<and> responsiveImages example_URL \<lparr>opt_sizes = None, opt_debug = None, opt_lazy = None\<rparr>
        \<lparr>href = ''a__1000000000000000000000-1.jpg'', title = None, text' = None\<rparr>
      = ([], Markup ''<img class="md-img" src="a__1000000000000000000000-1.jpg" srcset="a__1e+21-1.jpg 1e+21w" width="1e+21" height="1" alt="" loading="lazy">'')\<close>
  by code_simp

text \<open>
  C10, amended: for every filename the pattern accepts and every size token of it whose
  width and height are at most \<open>2^53 - 1\<close>, the token rebuilt for the variant filename is
  the decimal rendering of the parsed width and height, not the text of the token: the
  digits as written without their leading zeros (\<^verbatim>\<open>0400-0300\<close> is rebuilt as \<^verbatim>\<open>400-300\<close>),
  and the variant filename is the base, \<^verbatim>\<open>__\<close>, this token and the extension of the
  variant. When the filename holds no replacement pattern (\<^verbatim>\<open>$$\<close>, \<^verbatim>\<open>$&\<close>, \<^verbatim>\<open>$`\<close>, \<^verbatim>\<open>$'\<close>)
  and does not occur in the pathname before its final segment, the URL of the variant in
  the srcset is the pathname with this filename as its final segment (after the origin
  for an absolute reference, less one leading slash for a relative reference whose text
  has none), followed by the query and the fragment; its entry ends in the width so
  rendered and \<^verbatim>\<open>w\<close>.
\<close>

theorem size_token_is_rebuilt_canonical:
  assumes "regex_match (lastSegment pn) = Some (b, z, e)"
    and "tok \<in> set (split z CHR ''_'')" and "split tok CHR ''-'' = W # H # rest"
    and "digits_value W \<le> int MAX_SAFE_INTEGER" and "digits_value H \<le> int MAX_SAFE_INTEGER"
  shows "decodeToken e tok \<in> set (processVariants z e)
       \<and> number_to_string (width (decodeToken e tok)) = canonical W
       \<and> number_to_string (height (decodeToken e tok)) = canonical H
       \<and> token (decodeToken e tok) = canonical W @ ''-'' @ canonical H
       \<and> variantFilename b (decodeToken e tok)
           = b @ ''__'' @ canonical W @ ''-'' @ canonical H @ ext (decodeToken e tok)
       \<and> (\<not> hasReplacementPattern (lastSegment pn)
          \<and> indexOf pn (lastSegment pn) = Some (length pn - length (lastSegment pn))
          \<longrightarrow> finalUrl (lastSegment pn) b pn ab og sr hs h (decodeToken e tok)
               = (let u = directory pn @ b @ ''__'' @ canonical W @ ''-'' @ canonical H
                            @ ext (decodeToken e tok)
                  in if ab then og @ u @ sr @ hs
                     else (if startsWith u ''/'' \<and> \<not> startsWith h ''/''
                           then drop 1 u else u) @ sr @ hs))
       \<and> generateSrcset (processVariants z e) b pn ab og sr hs h
          = join (map (\<lambda>v. finalUrl (lastSegment pn) b pn ab og sr hs h v
                           @ '' '' @ number_to_string (width v) @ ''w'')
                    (processVariants z e)) '', ''"
proof -
  let ?v = "decodeToken e tok"
  note v = safe_token_variant [OF assms]
  from v(4) have vf: "variantFilename b ?v
      = b @ ''__'' @ canonical W @ ''-'' @ canonical H @ ext ?v"
    by (simp add: variantFilename_def)
  have "finalUrl (lastSegment pn) b pn ab og sr hs h ?v
        = (let u = directory pn @ b @ ''__'' @ canonical W @ ''-'' @ canonical H @ ext ?v
           in if ab then og @ u @ sr @ hs
              else (if startsWith u ''/'' \<and> \<not> startsWith h ''/''
                    then drop 1 u else u) @ sr @ hs)"
    if n: "\<not> hasReplacementPattern (lastSegment pn)"
      and i: "indexOf pn (lastSegment pn) = Some (length pn - length (lastSegment pn))"
    using finalUrl_final_segment [OF i v(6) [OF n]] unfolding vf Let_def by simp
  moreover note v(1,2,3,4) vf
  moreover note generateSrcset_entries [of "processVariants z e" b pn ab og sr hs h]
  ultimately show ?thesis by blast
qed

theorem size_token_is_rebuilt_canonical_witness:
  "regex_match (lastSegment ''/img/p__0400-0300.jpg'') = Some (''p'', ''0400-0300'', ''.jpg'')
   \<and> split ''0400-0300'' CHR ''_'' = [''0400-0300'']
   \<and> split ''0400-0300'' CHR ''-'' = [''0400'', ''0300'']
   \<and> digits_value ''0400'' \<le> int MAX_SAFE_INTEGER
   \<and> digits_value ''0300'' \<le> int MAX_SAFE_INTEGER
   \<and> \<not> hasReplacementPattern (lastSegment ''/img/p__0400-0300.jpg'')
   \<and> indexOf ''/img/p__0400-0300.jpg'' (lastSegment ''/img/p__0400-0300.jpg'')
       = Some (length ''/img/p__0400-0300.jpg'' - length (lastSegment ''/img/p__0400-0300.jpg''))
   \<and> canonical ''0400'' = ''400'' \<and> canonical ''0300'' = ''300''
   \<and> token (decodeToken ''.jpg'' ''0400-0300'') = ''400-300''
   \<and> variantFilename ''p'' (decodeToken ''.jpg'' ''0400-0300'') = ''p__400-300.jpg''
   \<and> finalUrl (lastSegment ''/img/p__0400-0300.jpg'') ''p'' ''/img/p__0400-0300.jpg'' False
         [] [] [] ''img/p__0400-0300.jpg'' (decodeToken ''.jpg'' ''0400-0300'')
       = ''img/p__400-300.jpg''
   \<and> generateSrcset (processVariants ''0400-0300'' ''.jpg'') ''p'' ''/img/p__0400-0300.jpg''
         False [] [] [] ''img/p__0400-0300.jpg''
       = ''img/p__400-300.jpg 400w''"
proof -
  let ?pn = "''/img/p__0400-0300.jpg''" and ?h = "''img/p__0400-0300.jpg''"
  have m: "regex_match (lastSegment ?pn) = Some (''p'', ''0400-0300'', ''.jpg'')"
    by code_simp
  have t: "split ''0400-0300'' CHR ''_'' = [''0400-0300'']" by code_simp
  have d: "split ''0400-0300'' CHR ''-'' = [''0400'', ''0300'']" by code_simp
  have s: "digits_value ''0400'' \<le> int MAX_SAFE_INTEGER"
    "digits_value ''0300'' \<le> int MAX_SAFE_INTEGER"
    by (simp_all add: MAX_SAFE_INTEGER_def digits_value_def digit_value_def)
  have n: "\<not> hasReplacementPattern (lastSegment ?pn)" by code_simp
  have i: "indexOf ?pn (lastSegment ?pn) = Some (length ?pn - length (lastSegment ?pn))"
    by code_simp
  have c: "canonical ''0400'' = ''400''" "canonical ''0300'' = ''300''" by code_simp+
  have e: "ext (decodeToken ''.jpg'' ''0400-0300'') = ''.jpg''" by code_simp
  have u: "directory ?pn = ''/img/''" by code_simp
  have g: "generateSrcset (processVariants ''0400-0300'' ''.jpg'') ''p'' ?pn False [] [] [] ?h
             = ''img/p__400-300.jpg 400w''"
    by code_simp
  from t have k: "''0400-0300'' \<in> set (split ''0400-0300'' CHR ''_'')" by simp
  note f = size_token_is_rebuilt_canonical [OF m k d s, of False "[]" "[]" "[]" ?h]
  from f c e have 1: "token (decodeToken ''.jpg'' ''0400-0300'') = ''400-300''"
    and 2: "variantFilename ''p'' (decodeToken ''.jpg'' ''0400-0300'') = ''p__400-300.jpg''"
    by simp_all
  from f n i have "finalUrl (lastSegment ?pn) ''p'' ?pn False [] [] [] ?h
      (decodeToken ''.jpg'' ''0400-0300'')
    = (let u = directory ?pn @ ''p'' @ ''__'' @ canonical ''0400'' @ ''-'' @ canonical ''0300''
                 @ ext (decodeToken ''.jpg'' ''0400-0300'')
       in if False then [] @ u @ [] @ []
          else (if startsWith u ''/'' \<and> \<not> startsWith ?h ''/'' then drop 1 u else u) @ [] @ [])"
    by blast
  with c e u have 3: "finalUrl (lastSegment ?pn) ''p'' ?pn False [] [] [] ?h
      (decodeToken ''.jpg'' ''0400-0300'') = ''img/p__400-300.jpg''"
    by (simp add: startsWith_def)
  from m t d s n i c 1 2 3 g show ?thesis by simp
qed

section \<open>Where the base name ends\<close>

text \<open>
  C4, as stated: when \<^verbatim>\<open>__\<close> occurs more than once, the base extends up to its last
  occurrence in the filename. In \<^verbatim>\<open>a__1-2.j__pg\<close> the last \<^verbatim>\<open>__\<close> lies in the extension
  (which may hold any character but a dot): the match succeeds with the base \<^verbatim>\<open>a\<close>, which
  ends at the first \<^verbatim>\<open>__\<close>.
\<close>

theorem base_does_not_reach_last_double_underscore:
  "regex_match ''a__1-2.j__pg'' = Some (''a'', ''1-2'', ''.j__pg'')
   \<and> ''a__1-2.j__pg'' = ''a__1-2.j'' @ ''__'' @ ''pg''"
  by code_simp

text \<open>
  C4, amended: when the match succeeds, the filename is the base, \<^verbatim>\<open>__\<close>, the size list
  and the extension; the extension begins at the last dot of the filename, and the base
  extends up to the last occurrence of \<^verbatim>\<open>__\<close> that lies before the extension: no
  \<^verbatim>\<open>__\<close> before the extension begins later than the one after the base. Only the text
  between that \<^verbatim>\<open>__\<close> and the extension is the size list.
\<close>

theorem base_ends_at_last_separator_before_extension:
  assumes "regex_match fn = Some (b, z, e)"
  shows "fn = b @ ''__'' @ z @ e
       \<and> (\<exists>x. e = CHR ''.'' # x \<and> x \<noteq> [] \<and> CHR ''.'' \<notin> set x)
       \<and> z \<noteq> [] \<and> CHR ''.'' \<notin> set z
       \<and> (\<forall>b' r. fn = b' @ ''__'' @ r @ e \<longrightarrow> length b' \<le> length b)"
proof -
  from regex_match_sound [OF assms] have fn: "fn = b @ ''__'' @ z @ e"
    and z: "size_list z" and e: "extension e" by simp_all
  have "length b' \<le> length b" if "fn = b' @ ''__'' @ r @ e" for b' r
  proof (rule ccontr)
    assume "\<not> length b' \<le> length b"
    moreover from fn that have eq: "b @ ''__'' @ z = b' @ ''__'' @ r" by simp
    ultimately obtain u where u: "b' = b @ u" "u \<noteq> []"
      by (auto simp: append_eq_append_conv2)
    with eq have *: "''__'' @ z = u @ ''__'' @ r" by simp
    from u(2) * obtain u' where u': "u = CHR ''_'' # u'" by (cases u) auto
    with * have **: "CHR ''_'' # z = u' @ ''__'' @ r" by simp
    show False
    proof (cases u')
      case Nil
      with ** have "z = CHR ''_'' # r" by simp
      with size_list_chars [OF z] show False by simp
    next
      case (Cons x u'')
      with ** have "z = u'' @ ''__'' @ r" by simp
      with size_list_no_double [OF z] show False by blast
    qed
  qed
  moreover from e have "\<exists>x. e = CHR ''.'' # x \<and> x \<noteq> [] \<and> CHR ''.'' \<notin> set x"
    unfolding extension_def by blast
  ultimately show ?thesis using fn size_list_chars [OF z] by blast
qed

theorem base_ends_at_last_separator_before_extension_witness:
  "regex_match ''a__b__0400-0300-WebP_1-2.jpg'' = Some (''a__b'', ''0400-0300-WebP_1-2'', ''.jpg'')
   \<and> ''a__b__0400-0300-WebP_1-2.jpg'' = ''a__b'' @ ''__'' @ ''0400-0300-WebP_1-2'' @ ''.jpg''
   \<and> ''a__b__0400-0300-WebP_1-2.jpg'' = ''a'' @ ''__'' @ ''b__0400-0300-WebP_1-2'' @ ''.jpg''
   \<and> length ''a'' \<le> length ''a__b''"
proof -
  have m: "regex_match ''a__b__0400-0300-WebP_1-2.jpg''
             = Some (''a__b'', ''0400-0300-WebP_1-2'', ''.jpg'')"
    by code_simp
  have s: "''a__b__0400-0300-WebP_1-2.jpg'' = ''a'' @ ''__'' @ ''b__0400-0300-WebP_1-2'' @ ''.jpg''"
    by simp
  from base_ends_at_last_separator_before_extension [OF m] s have "length ''a'' \<le> length ''a__b''" by blast
  with base_ends_at_last_separator_before_extension [OF m] m s show ?thesis by blast
qed

section \<open>The order of the variants\<close>

text \<open>
  C6. For every reference whose filename the pattern accepts, the variants are the
  decoded size tokens in ascending order of width, whatever their order in the filename;
  the srcset lists one entry per variant in that order, each ending in its width; and the
  attributes \<^verbatim>\<open>width\<close> and \<^verbatim>\<open>height\<close> of the tag are those of the last variant.
\<close>

theorem variants_are_sorted_by_width:
  assumes "parseUrl URL (href tk) = Some p"
    and "regex_match (lastSegment (pathname p)) = Some (b, z, e)"
  shows \<open>mset (processVariants z e) = mset (map (decodeToken e) (split z CHR ''_''))
       \<and> sorted_wrt width_le (processVariants z e)
       \<and> processVariants z e \<noteq> []
       \<and> generateSrcset (processVariants z e) b (pathname p) (isAbsolute p) (origin p)
            (search p) (hash p) (href tk)
          = join (map (\<lambda>v. finalUrl (lastSegment (pathname p)) b (pathname p) (isAbsolute p)
                             (origin p) (search p) (hash p) (href tk) v
                           @ '' '' @ number_to_string (width v) @ ''w'')
                    (processVariants z e)) '', ''
       \<and> render URL cfg tk =
           ([], Markup (''<img class="md-img" src="'' @ href tk @ ''" srcset="''
              @ generateSrcset (processVariants z e) b (pathname p) (isAbsolute p) (origin p)
                  (search p) (hash p) (href tk)
              @ ''"'' @ sizesAttr cfg
              @ '' width="'' @ number_to_string (width (last (processVariants z e)))
              @ ''" height="'' @ number_to_string (height (last (processVariants z e)))
              @ ''" alt="'' @ altText tk @ ''"'' @ titleAttr tk @ lazyLoadingAttr cfg @ ''>''))\<close>
proof -
  from matched_widths_not_NaN [OF assms(2)]
  have "sorted_wrt width_le (processVariants z e)"
    unfolding processVariants_def by (rule sorted_sort_with)
  moreover have "mset (processVariants z e) = mset (map (decodeToken e) (split z CHR ''_''))"
    by (simp add: processVariants_def mset_sort_with)
  moreover note processVariants_not_Nil [of z e]
  moreover note generateSrcset_entries [of "processVariants z e" b "pathname p" "isAbsolute p"
    "origin p" "search p" "hash p" "href tk"]
  moreover note render_markup [OF assms, of cfg]
  ultimately show ?thesis by blast
qed

theorem variants_are_sorted_by_width_witness:
  \<open>parseUrl example_URL ''img/x__800-600_400-300.jpg''
     = Some \<lparr> origin = [], pathname = ''/img/x__800-600_400-300.jpg'',
              search = [], hash = [], isAbsolute = False \<rparr>
   \<and> regex_match (lastSegment ''/img/x__800-600_400-300.jpg'')
       = Some (''x'', ''800-600_400-300'', ''.jpg'')
   \<and> map width (processVariants ''800-600_400-300'' ''.jpg'') = [Num 400, Num 800]
   \<and> sorted_wrt width_le (processVariants ''800-600_400-300'' ''.jpg'')
   \<and> render example_URL \<lparr>defaultSizes = None, debug = False, lazy = True\<rparr>
        \<lparr>href = ''img/x__800-600_400-300.jpg'', title = None, text' = Some ''X''\<rparr>
      = ([], Markup ''<img class="md-img" src="img/x__800-600_400-300.jpg" srcset="img/x__400-300.jpg 400w, img/x__800-600.jpg 800w" width="800" height="600" alt="X" loading="lazy">'')\<close>
proof -
  let ?p = "\<lparr> origin = [], pathname = ''/img/x__800-600_400-300.jpg'',
              search = [], hash = [], isAbsolute = False \<rparr>"
  let ?tk = "\<lparr>href = ''img/x__800-600_400-300.jpg'', title = None, text' = Some ''X''\<rparr>"
  have p: "parseUrl example_URL (href ?tk) = Some ?p" by code_simp
  have m: "regex_match (lastSegment (pathname ?p)) = Some (''x'', ''800-600_400-300'', ''.jpg'')"
    by code_simp
  have w: "map width (processVariants ''800-600_400-300'' ''.jpg'') = [Num 400, Num 800]"
    by code_simp
  have r: \<open>render example_URL \<lparr>defaultSizes = None, debug = False, lazy = True\<rparr> ?tk
      = ([], Markup ''<img class="md-img" src="img/x__800-600_400-300.jpg" srcset="img/x__400-300.jpg 400w, img/x__800-600.jpg 800w" width="800" height="600" alt="X" loading="lazy">'')\<close>
    by code_simp
  from variants_are_sorted_by_width [OF p m]
  have "sorted_wrt width_le (processVariants ''800-600_400-300'' ''.jpg'')" by blast
  with p m w r show ?thesis by simp
qed

section \<open>No fault leaves the renderer\<close>

text \<open>
  C7. For every image token, configuration and behaviour of the URL constructor,
  \<^verbatim>\<open>#render\<close> returns a string or \<^verbatim>\<open>false\<close> and throws nothing: a reference that does not
  parse, a filename without \<^verbatim>\<open>__\<close>, a filename that the pattern rejects, and an error
  thrown in the try block all give \<^verbatim>\<open>false\<close>.
\<close>

theorem render_never_throws:
  "(\<forall>err. snd (render URL cfg tk) \<noteq> Uncaught err)
   \<and> (snd (render URL cfg tk) = NoMatch \<or> (\<exists>html. snd (render URL cfg tk) = Markup html))
   \<and> (parseUrl URL (href tk) = None \<longrightarrow> snd (render URL cfg tk) = NoMatch)
   \<and> (parseUrl URL (href tk) = Some p \<and> \<not> includes_str (lastSegment (pathname p)) ''__''
        \<longrightarrow> snd (render URL cfg tk) = NoMatch)
   \<and> (parseUrl URL (href tk) = Some p \<and> regex_match (lastSegment (pathname p)) = None
        \<longrightarrow> snd (render URL cfg tk) = NoMatch)
   \<and> (parseUrl URL (href tk) = Some p \<and> regex_match (lastSegment (pathname p)) = Some (b, z, e)
        \<longrightarrow> snd (render URL cfg tk) =
             (case renderMatch cfg tk p b z e of Inl err \<Rightarrow> NoMatch | Inr html \<Rightarrow> Markup html))"
proof -
  have 1: "\<forall>err. snd (render URL cfg tk) \<noteq> Uncaught err"
    by (auto simp: render_def pop_split split: option.splits sum.splits)
  have 2: "parseUrl URL (href tk) = None \<longrightarrow> snd (render URL cfg tk) = NoMatch"
    by (simp add: render_def)
  have 4: "parseUrl URL (href tk) = Some p \<and> regex_match (lastSegment (pathname p)) = None
        \<longrightarrow> snd (render URL cfg tk) = NoMatch"
    by (simp add: render_def pop_split_lastSegment)
  have 3: "parseUrl URL (href tk) = Some p \<and> \<not> includes_str (lastSegment (pathname p)) ''__''
        \<longrightarrow> snd (render URL cfg tk) = NoMatch"
  proof (cases "regex_match (lastSegment (pathname p))")
    case None
    with 4 show ?thesis by simp
  next
    case (Some m)
    obtain b' z' e' where "m = (b', z', e')" by (cases m)
    with Some regex_match_sound [of "lastSegment (pathname p)" b' z' e']
    have "lastSegment (pathname p) = b' @ ''__'' @ z' @ e'" by simp
    then have "includes_str (lastSegment (pathname p)) ''__''"
      using includes_str_append [of b' "''__''" "z' @ e'"] by simp
    then show ?thesis by simp
  qed
  have 5: "parseUrl URL (href tk) = Some p \<and> regex_match (lastSegment (pathname p)) = Some (b, z, e)
        \<longrightarrow> snd (render URL cfg tk) =
             (case renderMatch cfg tk p b z e of Inl err \<Rightarrow> NoMatch | Inr html \<Rightarrow> Markup html)"
    by (simp add: render_def pop_split_lastSegment split: sum.splits)
  from 1 have 0: "snd (render URL cfg tk) = NoMatch \<or> (\<exists>html. snd (render URL cfg tk) = Markup html)"
    by (cases "snd (render URL cfg tk)") auto
  from 0 1 2 3 4 5 show ?thesis by blast
qed

theorem render_never_throws_witness:
  \<open>parseUrl example_URL ''http://'' = None
   \<and> snd (render example_URL \<lparr>defaultSizes = None, debug = True, lazy = True\<rparr>
            \<lparr>href = ''http://'', title = None, text' = None\<rparr>) = NoMatch
   \<and> \<not> includes_str (lastSegment ''/assets/regular-image.jpg'') ''__''
   \<and> snd (render example_URL \<lparr>defaultSizes = None, debug = True, lazy = True\<rparr>
            \<lparr>href = ''assets/regular-image.jpg'', title = None, text' = None\<rparr>) = NoMatch
   \<and> regex_match (lastSegment ''/a__1-2_.png'') = None
   \<and> snd (render example_URL \<lparr>defaultSizes = None, debug = True, lazy = True\<rparr>
            \<lparr>href = ''a__1-2_.png'', title = None, text' = None\<rparr>) = NoMatch
   \<and> regex_match (lastSegment ''/test__400-400.jpg'') = Some (''test'', ''400-400'', ''.jpg'')
   \<and> snd (render example_URL \<lparr>defaultSizes = None, debug = True, lazy = True\<rparr>
            \<lparr>href = ''test__400-400.jpg'', title = None, text' = None\<rparr>)
       = Markup ''<img class="md-img" src="test__400-400.jpg" srcset="test__400-400.jpg 400w" width="400" height="400" alt="" loading="lazy">''\<close>
proof -
  let ?cfg = "\<lparr>defaultSizes = None, debug = True, lazy = True\<rparr>"
  let ?t1 = "\<lparr>href = ''http://'', title = None, text' = None\<rparr>"
  let ?t2 = "\<lparr>href = ''assets/regular-image.jpg'', title = None, text' = None\<rparr>"
  let ?t3 = "\<lparr>href = ''a__1-2_.png'', title = None, text' = None\<rparr>"
  let ?t4 = "\<lparr>href = ''test__400-400.jpg'', title = None, text' = None\<rparr>"
  let ?p2 = "\<lparr> origin = [], pathname = ''/assets/regular-image.jpg'',
              search = [], hash = [], isAbsolute = False \<rparr>"
  let ?p3 = "\<lparr> origin = [], pathname = ''/a__1-2_.png'',
              search = [], hash = [], isAbsolute = False \<rparr>"
  let ?p4 = "\<lparr> origin = [], pathname = ''/test__400-400.jpg'',
              search = [], hash = [], isAbsolute = False \<rparr>"
  have p1: "parseUrl example_URL (href ?t1) = None" by code_simp
  have p2: "parseUrl example_URL (href ?t2) = Some ?p2" by code_simp
  have p3: "parseUrl example_URL (href ?t3) = Some ?p3" by code_simp
  have p4: "parseUrl example_URL (href ?t4) = Some ?p4" by code_simp
  have i2: "\<not> includes_str (lastSegment (pathname ?p2)) ''__''" by code_simp
  have m3: "regex_match (lastSegment (pathname ?p3)) = None" by code_simp
  have m4: "regex_match (lastSegment (pathname ?p4)) = Some (''test'', ''400-400'', ''.jpg'')"
    by code_simp
  have r4: \<open>renderMatch ?cfg ?t4 ?p4 ''test'' ''400-400'' ''.jpg''
      = Inr ''<img class="md-img" src="test__400-400.jpg" srcset="test__400-400.jpg 400w" width="400" height="400" alt="" loading="lazy">''\<close>
    by code_simp
  from render_never_throws [of example_URL ?cfg ?t1] p1
  have 1: "snd (render example_URL ?cfg ?t1) = NoMatch" by blast
  from render_never_throws [of example_URL ?cfg ?t2 ?p2] p2 i2
  have 2: "snd (render example_URL ?cfg ?t2) = NoMatch" by blast
  from render_never_throws [of example_URL ?cfg ?t3 ?p3] p3 m3
  have 3: "snd (render example_URL ?cfg ?t3) = NoMatch" by blast
  from render_never_throws [of example_URL ?cfg ?t4 ?p4 "''test''" "''400-400''" "''.jpg''"] p4 m4
  have "snd (render example_URL ?cfg ?t4) =
          (case renderMatch ?cfg ?t4 ?p4 ''test'' ''400-400'' ''.jpg'' of
             Inl err \<Rightarrow> NoMatch | Inr html \<Rightarrow> Markup html)"
    by blast
  with r4 have 4: \<open>snd (render example_URL ?cfg ?t4)
      = Markup ''<img class="md-img" src="test__400-400.jpg" srcset="test__400-400.jpg 400w" width="400" height="400" alt="" loading="lazy">''\<close>
    by simp
  from p1 1 i2 2 m3 3 m4 4 show ?thesis by simp
qed

section \<open>A size token that names a format\<close>

text \<open>
  C9, as stated: for every size token of the form W-H-EXT the variant filename is the
  base, \<^verbatim>\<open>__\<close>, W, \<^verbatim>\<open>-\<close>, H, a dot and EXT. \<^verbatim>\<open>parseInt\<close> returns a double: the width
  \<^verbatim>\<open>9007199254740993\<close> (\<open>2^53 + 1\<close>) is read as \<^verbatim>\<open>9007199254740992\<close>, and the variant
  of \<^verbatim>\<open>a__9007199254740993-1-webp.jpg\<close> is named \<^verbatim>\<open>a__9007199254740992-1.webp\<close>.
\<close>

theorem format_override_rounds_a_large_width:
  \<open>regex_match (lastSegment ''/a__9007199254740993-1-webp.jpg'')
     = Some (''a'', ''9007199254740993-1-webp'', ''.jpg'')
   \<and> split ''9007199254740993-1-webp'' CHR ''_'' = [''9007199254740993-1-webp'']
   \<and> split ''9007199254740993-1-webp'' CHR ''-'' = [''9007199254740993'', ''1'', ''webp'']
   \<and> map (variantFilename ''a'') (processVariants ''9007199254740993-1-webp'' ''.jpg'')
       = [''a__9007199254740992-1.webp'']
   \<and> ''a__9007199254740992-1.webp'' \<noteq> ''a__9007199254740993-1.webp''
   \<and> responsiveImages example_URL \<lparr>opt_sizes = None, opt_debug = None, opt_lazy = None\<rparr>
        \<lparr>href = ''a__9007199254740993-1-webp.jpg'', title = None, text' = None\<rparr>
      = ([], Markup ''<img class="md-img" src="a__9007199254740993-1-webp.jpg" srcset="a__9007199254740992-1.webp 9007199254740992w" width="9007199254740992" height="1" alt="" loading="lazy">'')\<close>
  by code_simp

text \<open>
  C9, amended: for every reference whose filename the pattern accepts and every size
  token of it of the form W-H-EXT with W and H at most \<open>2^53 - 1\<close>, the variant filename
  is the base, \<^verbatim>\<open>__\<close>, W, \<^verbatim>\<open>-\<close>, H, a dot and EXT, with W and H in decimal digits
  without leading zeros: the word appears as the extension only. When the filename holds
  no replacement pattern (\<^verbatim>\<open>$$\<close>, \<^verbatim>\<open>$&\<close>, \<^verbatim>\<open>$`\<close>, \<^verbatim>\<open>$'\<close>) and does not occur in the pathname
  before its final segment, the URL of the variant in the srcset is the pathname with
  this filename as its final segment (after the origin for an absolute reference, less
  one leading slash for a relative reference whose text has none), followed by the query
  and the fragment; its entry ends in W and \<^verbatim>\<open>w\<close>. The tag carries the reference itself
  as \<^verbatim>\<open>src\<close>, before the srcset.
\<close>

theorem format_override_names_the_extension:
  assumes "parseUrl URL (href tk) = Some p"
    and "regex_match (lastSegment (pathname p)) = Some (b, z, e)"
    and "tok \<in> set (split z CHR ''_'')" and "split tok CHR ''-'' = [W, H, E]"
    and "digits_value W \<le> int MAX_SAFE_INTEGER" and "digits_value H \<le> int MAX_SAFE_INTEGER"
  shows \<open>decodeToken e tok \<in> set (processVariants z e)
       \<and> variantFilename b (decodeToken e tok)
           = b @ ''__'' @ canonical W @ ''-'' @ canonical H @ ''.'' @ E
       \<and> (\<not> hasReplacementPattern (lastSegment (pathname p))
          \<and> indexOf (pathname p) (lastSegment (pathname p))
              = Some (length (pathname p) - length (lastSegment (pathname p)))
          \<longrightarrow> finalUrl (lastSegment (pathname p)) b (pathname p) (isAbsolute p) (origin p)
                 (search p) (hash p) (href tk) (decodeToken e tok)
               = (let u = directory (pathname p)
                            @ b @ ''__'' @ canonical W @ ''-'' @ canonical H @ ''.'' @ E
                  in if isAbsolute p then origin p @ u @ search p @ hash p
                     else (if startsWith u ''/'' \<and> \<not> startsWith (href tk) ''/''
                           then drop 1 u else u) @ search p @ hash p))
       \<and> number_to_string (width (decodeToken e tok)) = canonical W
       \<and> generateSrcset (processVariants z e) b (pathname p) (isAbsolute p) (origin p)
            (search p) (hash p) (href tk)
          = join (map (\<lambda>v. finalUrl (lastSegment (pathname p)) b (pathname p) (isAbsolute p)
                             (origin p) (search p) (hash p) (href tk) v
                           @ '' '' @ number_to_string (width v) @ ''w'')
                    (processVariants z e)) '', ''
       \<and> render URL cfg tk =
           ([], Markup (''<img class="md-img" src="'' @ href tk @ ''" srcset="''
              @ generateSrcset (processVariants z e) b (pathname p) (isAbsolute p) (origin p)
                  (search p) (hash p) (href tk)
              @ ''"'' @ sizesAttr cfg
              @ '' width="'' @ number_to_string (width (last (processVariants z e)))
              @ ''" height="'' @ number_to_string (height (last (processVariants z e)))
              @ ''" alt="'' @ altText tk @ ''"'' @ titleAttr tk @ lazyLoadingAttr cfg @ ''>''))\<close>
proof -
  let ?v = "decodeToken e tok" and ?pn = "pathname p"
  note v = safe_token_variant [OF assms(2,3,4,5,6)]
  from v(4,5) have vf: "variantFilename b ?v
      = b @ ''__'' @ canonical W @ ''-'' @ canonical H @ ''.'' @ E"
    by (simp add: variantFilename_def)
  have "finalUrl (lastSegment ?pn) b ?pn (isAbsolute p) (origin p) (search p) (hash p)
          (href tk) ?v
        = (let u = directory ?pn @ b @ ''__'' @ canonical W @ ''-'' @ canonical H @ ''.'' @ E
           in if isAbsolute p then origin p @ u @ search p @ hash p
              else (if startsWith u ''/'' \<and> \<not> startsWith (href tk) ''/''
                    then drop 1 u else u) @ search p @ hash p)"
    if n: "\<not> hasReplacementPattern (lastSegment ?pn)"
      and i: "indexOf ?pn (lastSegment ?pn) = Some (length ?pn - length (lastSegment ?pn))"
    using finalUrl_final_segment [OF i v(6) [OF n]] unfolding vf Let_def by simp
  moreover note v(1) vf v(2)
  moreover note generateSrcset_entries [of "processVariants z e" b ?pn "isAbsolute p"
    "origin p" "search p" "hash p" "href tk"]
  moreover note render_markup [OF assms(1,2), of cfg]
  ultimately show ?thesis by blast
qed

theorem format_override_names_the_extension_witness:
  \<open>parseUrl example_URL ''img/pic__800-600-webp.jpg''
     = Some \<lparr> origin = [], pathname = ''/img/pic__800-600-webp.jpg'',
              search = [], hash = [], isAbsolute = False \<rparr>
   \<and> regex_match (lastSegment ''/img/pic__800-600-webp.jpg'')
       = Some (''pic'', ''800-600-webp'', ''.jpg'')
   \<and> split ''800-600-webp'' CHR ''_'' = [''800-600-webp'']
   \<and> split ''800-600-webp'' CHR ''-'' = [''800'', ''600'', ''webp'']
   \<and> digits_value ''800'' \<le> int MAX_SAFE_INTEGER
   \<and> digits_value ''600'' \<le> int MAX_SAFE_INTEGER
   \<and> \<not> hasReplacementPattern (lastSegment ''/img/pic__800-600-webp.jpg'')
   \<and> indexOf ''/img/pic__800-600-webp.jpg'' (lastSegment ''/img/pic__800-600-webp.jpg'')
       = Some (length ''/img/pic__800-600-webp.jpg''
                 - length (lastSegment ''/img/pic__800-600-webp.jpg''))
   \<and> variantFilename ''pic'' (decodeToken ''.jpg'' ''800-600-webp'') = ''pic__800-600.webp''
   \<and> finalUrl (lastSegment ''/img/pic__800-600-webp.jpg'') ''pic''
         ''/img/pic__800-600-webp.jpg'' False [] [] [] ''img/pic__800-600-webp.jpg''
         (decodeToken ''.jpg'' ''800-600-webp'')
       = ''img/pic__800-600.webp''
   \<and> render example_URL \<lparr>defaultSizes = None, debug = False, lazy = True\<rparr>
        \<lparr>href = ''img/pic__800-600-webp.jpg'', title = None, text' = Some ''WebP''\<rparr>
      = ([], Markup ''<img class="md-img" src="img/pic__800-600-webp.jpg" srcset="img/pic__800-600.webp 800w" width="800" height="600" alt="WebP" loading="lazy">'')\<close>
proof -
  let ?p = "\<lparr> origin = [], pathname = ''/img/pic__800-600-webp.jpg'',
              search = [], hash = [], isAbsolute = False \<rparr>"
  let ?tk = "\<lparr>href = ''img/pic__800-600-webp.jpg'', title = None, text' = Some ''WebP''\<rparr>"
  let ?cfg = "\<lparr>defaultSizes = None, debug = False, lazy = True\<rparr>"
  have p: "parseUrl example_URL (href ?tk) = Some ?p" by code_simp
  have m: "regex_match (lastSegment (pathname ?p)) = Some (''pic'', ''800-600-webp'', ''.jpg'')"
    by code_simp
  have t: "split ''800-600-webp'' CHR ''_'' = [''800-600-webp'']" by code_simp
  have d: "split ''800-600-webp'' CHR ''-'' = [''800'', ''600'', ''webp'']" by code_simp
  have s: "digits_value ''800'' \<le> int MAX_SAFE_INTEGER"
    "digits_value ''600'' \<le> int MAX_SAFE_INTEGER"
    by (simp_all add: MAX_SAFE_INTEGER_def digits_value_def digit_value_def)
  have n: "\<not> hasReplacementPattern (lastSegment (pathname ?p))" by code_simp
  have i: "indexOf (pathname ?p) (lastSegment (pathname ?p))
             = Some (length (pathname ?p) - length (lastSegment (pathname ?p)))"
    by code_simp
  have c: "canonical ''800'' = ''800''" "canonical ''600'' = ''600''" by code_simp+
  have u: "directory ''/img/pic__800-600-webp.jpg'' = ''/img/''" by code_simp
  have r: \<open>render example_URL ?cfg ?tk
      = ([], Markup ''<img class="md-img" src="img/pic__800-600-webp.jpg" srcset="img/pic__800-600.webp 800w" width="800" height="600" alt="WebP" loading="lazy">'')\<close>
    by code_simp
  from t have k: "''800-600-webp'' \<in> set (split ''800-600-webp'' CHR ''_'')" by simp
  note f = format_override_names_the_extension [OF p m k d s, of ?cfg]
  from f c have 1: "variantFilename ''pic'' (decodeToken ''.jpg'' ''800-600-webp'')
      = ''pic__800-600.webp''"
    by simp
  from f n i have "finalUrl (lastSegment (pathname ?p)) ''pic'' (pathname ?p) (isAbsolute ?p)
      (origin ?p) (search ?p) (hash ?p) (href ?tk) (decodeToken ''.jpg'' ''800-600-webp'')
    = (let u = directory (pathname ?p)
                 @ ''pic'' @ ''__'' @ canonical ''800'' @ ''-'' @ canonical ''600'' @ ''.'' @ ''webp''
       in if isAbsolute ?p then origin ?p @ u @ search ?p @ hash ?p
          else (if startsWith u ''/'' \<and> \<not> startsWith (href ?tk) ''/''
                then drop 1 u else u) @ search ?p @ hash ?p)"
    by blast
  with c u have 2: "finalUrl (lastSegment ''/img/pic__800-600-webp.jpg'') ''pic''
         ''/img/pic__800-600-webp.jpg'' False [] [] [] ''img/pic__800-600-webp.jpg''
         (decodeToken ''.jpg'' ''800-600-webp'')
       = ''img/pic__800-600.webp''"
    by (simp add: startsWith_def)
  from p m t d s n i 1 2 r show ?thesis by simp
qed

section \<open>The leading slash of a relative reference\<close>

text \<open>
  C5, as stated: when the text of a relative reference does not begin with \<^verbatim>\<open>/\<close>, no
  variant URL begins with \<^verbatim>\<open>/\<close>. For \<^verbatim>\<open>.//a__1-2.jpg\<close> the URL object has the pathname
  \<^verbatim>\<open>//a__1-2.jpg\<close>; one slash is stripped and the variant URL is \<^verbatim>\<open>/a__1-2.jpg\<close>.
\<close>

theorem relative_variant_keeps_a_leading_slash:
  "parseUrl example_URL ''.//a__1-2.jpg''
     = Some \<lparr> origin = [], pathname = ''//a__1-2.jpg'', search = [], hash = [],
              isAbsolute = False \<rparr>
   \<and> \<not> startsWith ''.//a__1-2.jpg'' ''/''
   \<and> regex_match (lastSegment ''//a__1-2.jpg'') = Some (''a'', ''1-2'', ''.jpg'')
   \<and> map (finalUrl (lastSegment ''//a__1-2.jpg'') ''a'' ''//a__1-2.jpg'' False [] [] []
            ''.//a__1-2.jpg'')
         (processVariants ''1-2'' ''.jpg'')
       = [''/a__1-2.jpg'']
   \<and> startsWith ''/a__1-2.jpg'' ''/''
   \<and> generateSrcset (processVariants ''1-2'' ''.jpg'') ''a'' ''//a__1-2.jpg'' False [] [] []
         ''.//a__1-2.jpg''
       = ''/a__1-2.jpg 1w''"
  by code_simp

text \<open>
  The replacement patterns \<^verbatim>\<open>$`\<close> and \<^verbatim>\<open>$'\<close> at the beginning of the filename can have the
  same effect: in \<^verbatim>\<open>$'__1-2.j/$'__1-2.j\<close> the \<^verbatim>\<open>$'\<close> of the variant filename is expanded to the
  text after the first occurrence of the filename, which begins with a slash, and the
  variant URL begins with a slash after one has been stripped.
\<close>

lemma replacement_pattern_adds_a_leading_slash:
  "regex_match (lastSegment (''/$'' @ [CHR 0x27] @ ''__1-2.j/$'' @ [CHR 0x27] @ ''__1-2.j''))
     = Some (''$'' @ [CHR 0x27], ''1-2'', ''.j'')
   \<and> \<not> startsWith (''/$'' @ [CHR 0x27] @ ''__1-2.j/$'' @ [CHR 0x27] @ ''__1-2.j'') ''//''
   \<and> map (finalUrl (''$'' @ [CHR 0x27] @ ''__1-2.j'') (''$'' @ [CHR 0x27])
            (''/$'' @ [CHR 0x27] @ ''__1-2.j/$'' @ [CHR 0x27] @ ''__1-2.j'')
            False [] [] []
            (''$'' @ [CHR 0x27] @ ''__1-2.j/$'' @ [CHR 0x27] @ ''__1-2.j''))
         (processVariants ''1-2'' ''.j'')
       = [''/$'' @ [CHR 0x27] @ ''__1-2.j__1-2.j/$'' @ [CHR 0x27] @ ''__1-2.j'']"
  by code_simp

text \<open>
  C5, amended: for every relative reference whose filename matches and whose text does
  not begin with \<^verbatim>\<open>/\<close>, every variant URL of the srcset is the pathname in which the
  filename has been replaced by the variant filename, less exactly one leading slash if
  it has one, followed by the query and the fragment. The variant URL begins with \<^verbatim>\<open>/\<close>
  exactly when the pathname so replaced begins with \<^verbatim>\<open>//\<close>; no variant URL begins with
  \<^verbatim>\<open>/\<close> when the pathname of the URL object does not begin with \<^verbatim>\<open>//\<close> and the filename
  does not begin with the replacement pattern \<^verbatim>\<open>$`\<close> or \<^verbatim>\<open>$'\<close>.
\<close>

theorem relative_variant_has_no_leading_slash:
  assumes "\<not> startsWith h ''/''"
    and "regex_match (lastSegment pn) = Some (b, z, e)"
  shows "generateSrcset (processVariants z e) b pn False og sr hs h
           = join (map (\<lambda>v. finalUrl (lastSegment pn) b pn False og sr hs h v
                              @ '' '' @ number_to_string (width v) @ ''w'')
                     (processVariants z e)) '', ''
       \<and> (\<forall>v. finalUrl (lastSegment pn) b pn False og sr hs h v
                = (if startsWith (replace pn (lastSegment pn) (variantFilename b v)) ''/''
                   then drop 1 (replace pn (lastSegment pn) (variantFilename b v))
                   else replace pn (lastSegment pn) (variantFilename b v)) @ sr @ hs
              \<and> (startsWith (finalUrl (lastSegment pn) b pn False og sr hs h v) ''/''
                   \<longleftrightarrow> startsWith (replace pn (lastSegment pn) (variantFilename b v)) ''//'')
              \<and> (\<not> startsWith pn ''//''
                  \<and> \<not> startsWith b [CHR ''$'', CHR 0x60] \<and> \<not> startsWith b [CHR ''$'', CHR 0x27]
                  \<longrightarrow> \<not> startsWith (finalUrl (lastSegment pn) b pn False og sr hs h v) ''/''))"
proof -
  have 1: "finalUrl (lastSegment pn) b pn False og sr hs h v
             = (if startsWith (replace pn (lastSegment pn) (variantFilename b v)) ''/''
                then drop 1 (replace pn (lastSegment pn) (variantFilename b v))
                else replace pn (lastSegment pn) (variantFilename b v)) @ sr @ hs" for v
    using assms(1) by (rule finalUrl_relative)
  have 2: "startsWith (finalUrl (lastSegment pn) b pn False og sr hs h v) ''/''
             \<longleftrightarrow> startsWith (replace pn (lastSegment pn) (variantFilename b v)) ''//''" for v
    unfolding 1 using replace_keeps_underscore [of pn b v] by (rule stripped_starts_with_slash)
  have 3: "\<not> startsWith (finalUrl (lastSegment pn) b pn False og sr hs h v) ''/''"
    if "\<not> startsWith pn ''//''" and "\<not> startsWith b [CHR ''$'', CHR 0x60]"
      and "\<not> startsWith b [CHR ''$'', CHR 0x27]" for v
    unfolding 2 using assms(2) that by (rule replace_no_double_slash)
  from 1 2 3 generateSrcset_entries [of "processVariants z e" b pn False og sr hs h]
  show ?thesis by blast
qed

theorem relative_variant_has_no_leading_slash_witness:
  "\<not> startsWith ''img/photo__400-300_800-600.jpg'' ''/''
   \<and> regex_match (lastSegment ''/img/photo__400-300_800-600.jpg'')
       = Some (''photo'', ''400-300_800-600'', ''.jpg'')
   \<and> \<not> startsWith ''/img/photo__400-300_800-600.jpg'' ''//''
   \<and> \<not> startsWith ''photo'' [CHR ''$'', CHR 0x60]
   \<and> \<not> startsWith ''photo'' [CHR ''$'', CHR 0x27]
   \<and> replace ''/img/photo__400-300_800-600.jpg'' (lastSegment ''/img/photo__400-300_800-600.jpg'')
         (variantFilename ''photo'' (last (processVariants ''400-300_800-600'' ''.jpg'')))
       = ''/img/photo__800-600.jpg''
   \<and> \<not> startsWith
         (finalUrl (lastSegment ''/img/photo__400-300_800-600.jpg'') ''photo''
            ''/img/photo__400-300_800-600.jpg'' False [] [] [] ''img/photo__400-300_800-600.jpg''
            (last (processVariants ''400-300_800-600'' ''.jpg''))) ''/''
   \<and> finalUrl (lastSegment ''/img/photo__400-300_800-600.jpg'') ''photo''
         ''/img/photo__400-300_800-600.jpg'' False [] [] [] ''img/photo__400-300_800-600.jpg''
         (last (processVariants ''400-300_800-600'' ''.jpg''))
       = ''img/photo__800-600.jpg''"
proof -
  let ?pn = "''/img/photo__400-300_800-600.jpg''" and ?h = "''img/photo__400-300_800-600.jpg''"
  let ?v = "last (processVariants ''400-300_800-600'' ''.jpg'')"
  have h: "\<not> startsWith ?h ''/''" by code_simp
  have m: "regex_match (lastSegment ?pn) = Some (''photo'', ''400-300_800-600'', ''.jpg'')"
    by code_simp
  have p: "\<not> startsWith ?pn ''//''" by code_simp
  have d: "\<not> startsWith ''photo'' [CHR ''$'', CHR 0x60]"
    "\<not> startsWith ''photo'' [CHR ''$'', CHR 0x27]" by code_simp+
  have r: "replace ?pn (lastSegment ?pn) (variantFilename ''photo'' ?v)
             = ''/img/photo__800-600.jpg''"
    by code_simp
  note f = relative_variant_has_no_leading_slash [OF h m, of "[]" "[]" "[]"]
  from f p d have 1: "\<not> startsWith (finalUrl (lastSegment ?pn) ''photo'' ?pn False [] [] [] ?h ?v) ''/''"
    by blast
  from f have "finalUrl (lastSegment ?pn) ''photo'' ?pn False [] [] [] ?h ?v
      = (if startsWith (replace ?pn (lastSegment ?pn) (variantFilename ''photo'' ?v)) ''/''
         then drop 1 (replace ?pn (lastSegment ?pn) (variantFilename ''photo'' ?v))
         else replace ?pn (lastSegment ?pn) (variantFilename ''photo'' ?v)) @ [] @ []"
    by blast
  then have 2: "finalUrl (lastSegment ?pn) ''photo'' ?pn False [] [] [] ?h ?v
      = ''img/photo__800-600.jpg''"
    unfolding r by (simp add: startsWith_def)
  from h m p d r 1 2 show ?thesis by simp
qed

end
